theory Spec2Isabelle
  imports Main "HOL-Library.Word"
begin

unbundle bit_operations_syntax

section \<open>Errors\<close>

text \<open>
  The exceptions the modelled code raises, as values. A function that can raise returns
  \<open>error + 'a\<close>, with \<open>Inl\<close> for the exception.
\<close>

datatype error = IndexError | KeyError | TypeError | ValueError | ZeroDivisionError | AttributeError

section \<open>PList and PDeque\<close>

text \<open>
  A \<open>_PList\<close> cell is a \<open>Cons\<close>, \<open>_EMPTY_PLIST\<close> is \<open>[]\<close>; a list is truthy iff it is
  not empty. The property \<open>rest\<close> of the empty list is the empty list itself.
\<close>

fun rest :: "'a list \<Rightarrow> 'a list" where
  "rest [] = []"
| "rest (x # xs) = xs"

text \<open>\<open>_PListBase.reverse\<close>: the loop \<open>while head: result = result.cons(head.first); head = head.rest\<close>.\<close>

fun reverse_loop :: "'a list \<Rightarrow> 'a list \<Rightarrow> 'a list" where
  "reverse_loop result [] = result"
| "reverse_loop result (first # rst) = reverse_loop (first # result) rst"

definition reverse :: "'a list \<Rightarrow> 'a list" where
  "reverse self = reverse_loop [] self"

record 'a pdeque =
  left_list :: "'a list"
  right_list :: "'a list"
  dq_length :: int
  maxlen :: "int option"

text \<open>
  \<open>_PDeque.__new__\<close>: a negative \<open>maxlen\<close> raises ValueError (the check that it is an
  integer is the type of the field).
\<close>

definition PDeque :: "'a list \<Rightarrow> 'a list \<Rightarrow> int \<Rightarrow> int option \<Rightarrow> error + 'a pdeque" where
  "PDeque left right len mx =
     (case mx of
        Some m \<Rightarrow> if m < 0 then Inl ValueError
                  else Inr \<lparr>left_list = left, right_list = right, dq_length = len, maxlen = mx\<rparr>
      | None \<Rightarrow> Inr \<lparr>left_list = left, right_list = right, dq_length = len, maxlen = mx\<rparr>)"

text \<open>\<open>_PDeque._pop_lists\<close>: the while loop, one iteration per unfolding.\<close>

function pop_lists :: "'a list \<Rightarrow> 'a list \<Rightarrow> int \<Rightarrow> 'a list \<times> 'a list" where
  "pop_lists new_primary_list new_secondary_list count =
     (if count > 0 \<and> (new_primary_list \<noteq> [] \<or> new_secondary_list \<noteq> []) then
        (if rest new_primary_list \<noteq> [] then
           pop_lists (rest new_primary_list) new_secondary_list (count - 1)
         else if new_primary_list \<noteq> [] then
           pop_lists (reverse new_secondary_list) [] (count - 1)
         else
           pop_lists (rest (reverse new_secondary_list)) [] (count - 1))
      else (new_primary_list, new_secondary_list))"
  by pat_completeness auto
termination
  by (relation "measure (\<lambda>(p, s, c). nat c)") auto

declare pop_lists.simps [simp del]

text \<open>
  \<open>_PDeque.pop\<close> and \<open>_PDeque.popleft\<close> call each other on a negative count.
\<close>

function pop :: "'a pdeque \<Rightarrow> int \<Rightarrow> error + 'a pdeque"
  and popleft :: "'a pdeque \<Rightarrow> int \<Rightarrow> error + 'a pdeque" where
  "pop self count =
     (if count < 0 then popleft self (- count)
      else (case pop_lists (right_list self) (left_list self) count of
              (new_right_list, new_left_list) \<Rightarrow>
                PDeque new_left_list new_right_list (max (dq_length self - count) 0) (maxlen self)))"
| "popleft self count =
     (if count < 0 then pop self (- count)
      else (case pop_lists (left_list self) (right_list self) count of
              (new_left_list, new_right_list) \<Rightarrow>
                PDeque new_left_list new_right_list (max (dq_length self - count) 0) (maxlen self)))"
  by pat_completeness auto
termination
  by (relation "measure (\<lambda>x. case x of Inl (d, c) \<Rightarrow> if c < 0 then 1 else 0
                                        | Inr (d, c) \<Rightarrow> if c < 0 then 1 else 0)") auto

declare pop.simps [simp del] popleft.simps [simp del]

text \<open>
  The deques the constructors build: the cached length is the number of elements held,
  and \<open>maxlen\<close>, when given, is not negative.
\<close>

definition pdeque_inv :: "'a pdeque \<Rightarrow> bool" where
  "pdeque_inv d \<longleftrightarrow>
     dq_length d = int (length (left_list d)) + int (length (right_list d)) \<and>
     (case maxlen d of None \<Rightarrow> True | Some m \<Rightarrow> 0 \<le> m)"

definition is_empty :: "'a pdeque \<Rightarrow> bool" where
  "is_empty self \<longleftrightarrow> left_list self = [] \<and> right_list self = []"

lemma reverse_loop_rev: "reverse_loop acc xs = rev xs @ acc"
  by (induction xs arbitrary: acc) auto

lemma reverse_rev: "reverse xs = rev xs"
  by (simp add: reverse_def reverse_loop_rev)

lemma rest_tl: "rest xs = tl xs"
  by (cases xs) auto

lemma pop_lists_length:
  "0 \<le> count \<Longrightarrow> pop_lists p s count = (p', s') \<Longrightarrow>
   int (length p') + int (length s') = max (int (length p) + int (length s) - count) 0"
proof (induction p s count arbitrary: p' s' rule: pop_lists.induct)
  case (1 p s c)
  show ?case
  proof (cases "c > 0 \<and> (p \<noteq> [] \<or> s \<noteq> [])")
    case False
    with "1.prems" show ?thesis
      by (auto simp: pop_lists.simps [of p s c])
  next
    case True
    note run = True
    consider (a) "rest p \<noteq> []" | (b) "rest p = []" "p \<noteq> []" | (c) "rest p = []" "p = []"
      by blast
    then show ?thesis
    proof cases
      case a
      with run "1.prems" have "pop_lists (rest p) s (c - 1) = (p', s')"
        by (simp add: pop_lists.simps [of p s c])
      with "1.IH"(1) [OF run a] run have
        "int (length p') + int (length s') = max (int (length (rest p)) + int (length s) - (c - 1)) 0"
        by simp
      moreover from a have "int (length (rest p)) = int (length p) - 1"
        by (cases p) auto
      ultimately show ?thesis by simp
    next
      case b
      with run "1.prems" have "pop_lists (reverse s) [] (c - 1) = (p', s')"
        by (simp add: pop_lists.simps [of p s c])
      with "1.IH"(2) [OF run _ b(2)] b run have
        "int (length p') + int (length s') = max (int (length (reverse s)) + int (length ([]::'a list)) - (c - 1)) 0"
        by simp
      moreover from b have "length p = 1"
        by (cases p) (auto simp: rest_tl)
      ultimately show ?thesis by (simp add: reverse_rev)
    next
      case c
      with run have sne: "s \<noteq> []" by simp
      from "1.prems"(2) have "pop_lists (rest (reverse s)) [] (c - 1) = (p', s')"
        by (subst (asm) pop_lists.simps) (use c run in simp)
      with "1.IH"(3) [OF run _ _] c run have
        "int (length p') + int (length s') = max (int (length (rest (reverse s))) + int (length ([]::'a list)) - (c - 1)) 0"
        by simp
      moreover from sne have "int (length (rest (reverse s))) = int (length s) - 1"
        by (cases s) (simp_all add: rest_tl reverse_rev)
      ultimately show ?thesis using c by simp
    qed
  qed
qed

text \<open>\<open>_PDeque.__iter__\<close>: the left list followed by the reversed right list.\<close>

definition pdeque_list :: "'a pdeque \<Rightarrow> 'a list" where
  "pdeque_list self = left_list self @ reverse (right_list self)"

lemma pop_lists_content:
  "0 \<le> count \<Longrightarrow> pop_lists p s count = (p', s') \<Longrightarrow> p' @ rev s' = drop (nat count) (p @ rev s)"
proof (induction p s count arbitrary: p' s' rule: pop_lists.induct)
  case (1 p s c)
  show ?case
  proof (cases "c > 0 \<and> (p \<noteq> [] \<or> s \<noteq> [])")
    case False
    from "1.prems"(2) have "(p, s) = (p', s')"
      by (subst (asm) pop_lists.simps) (use False in \<open>auto split: if_splits\<close>)
    then have res: "p' = p" "s' = s"
      by simp_all
    show ?thesis
    proof (cases "c > 0")
      case True
      with False res show ?thesis by simp
    next
      case False
      with "1.prems"(1) res show ?thesis by simp
    qed
  next
    case True
    note run = True
    then have "nat c = nat (c - 1) + 1"
      by linarith
    then have step: "drop (nat c) (p @ rev s) = drop (nat (c - 1)) (drop 1 (p @ rev s))"
      by (simp only: drop_drop)
    consider (a) "rest p \<noteq> []" | (b) "rest p = []" "p \<noteq> []" | (c) "rest p = []" "p = []"
      by blast
    then show ?thesis
    proof cases
      case a
      from "1.prems"(2) have "pop_lists (rest p) s (c - 1) = (p', s')"
        by (subst (asm) pop_lists.simps) (use a run in simp)
      with "1.IH"(1) [OF run a] run have "p' @ rev s' = drop (nat (c - 1)) (rest p @ rev s)"
        by simp
      moreover from a have "rest p @ rev s = drop 1 (p @ rev s)"
        by (cases p) auto
      ultimately show ?thesis using step by simp
    next
      case b
      from "1.prems"(2) have "pop_lists (reverse s) [] (c - 1) = (p', s')"
        by (subst (asm) pop_lists.simps) (use b run in simp)
      with "1.IH"(2) [OF run _ b(2)] b run have "p' @ rev s' = drop (nat (c - 1)) (reverse s @ rev [])"
        by simp
      moreover from b have "reverse s @ rev [] = drop 1 (p @ rev s)"
        by (cases p) (auto simp: reverse_rev)
      ultimately show ?thesis using step by simp
    next
      case c
      from "1.prems"(2) have "pop_lists (rest (reverse s)) [] (c - 1) = (p', s')"
        by (subst (asm) pop_lists.simps) (use c run in simp)
      with "1.IH"(3) [OF run _ _] c run have
        "p' @ rev s' = drop (nat (c - 1)) (rest (reverse s) @ rev [])"
        by simp
      moreover from c have "rest (reverse s) @ rev [] = drop 1 (p @ rev s)"
        by (simp add: rest_tl reverse_rev drop_Suc)
      ultimately show ?thesis using step by simp
    qed
  qed
qed

lemma PDeque_ok:
  "(case mx of None \<Rightarrow> True | Some m \<Rightarrow> 0 \<le> m) \<Longrightarrow>
   PDeque l r n mx = Inr \<lparr>left_list = l, right_list = r, dq_length = n, maxlen = mx\<rparr>"
  by (auto simp: PDeque_def split: option.splits)

lemma pop_nonneg:
  assumes inv: "pdeque_inv d" and n: "0 \<le> n"
  shows "\<exists>d'. pop d n = Inr d' \<and> pdeque_inv d' \<and> dq_length d' = max (dq_length d - n) 0 \<and>
           pdeque_list d' = take (nat (dq_length d - n)) (pdeque_list d)"
proof -
  obtain nr nl where pl: "pop_lists (right_list d) (left_list d) n = (nr, nl)"
    by (cases "pop_lists (right_list d) (left_list d) n")
  let ?d' = "\<lparr>left_list = nl, right_list = nr, dq_length = max (dq_length d - n) 0, maxlen = maxlen d\<rparr>"
  from inv have mx: "(case maxlen d of None \<Rightarrow> True | Some m \<Rightarrow> 0 \<le> m)"
    by (simp add: pdeque_inv_def)
  from n pl have res: "pop d n = Inr ?d'"
    by (simp add: pop.simps PDeque_ok [OF mx])
  from pop_lists_length [OF n pl] inv have len: "int (length nl) + int (length nr) = max (dq_length d - n) 0"
    by (simp add: pdeque_inv_def add.commute)
  from pop_lists_content [OF n pl] have "nr @ rev nl = drop (nat n) (right_list d @ rev (left_list d))" .
  then have "rev (nr @ rev nl) = rev (drop (nat n) (right_list d @ rev (left_list d)))"
    by simp
  then have "nl @ rev nr = take (length (right_list d @ rev (left_list d)) - nat n) (rev (right_list d @ rev (left_list d)))"
    by (simp only: rev_drop rev_append rev_rev_ident)
  then have "nl @ rev nr = take (length (left_list d) + length (right_list d) - nat n) (left_list d @ rev (right_list d))"
    by (simp only: rev_append rev_rev_ident length_append length_rev add.commute)
  moreover from inv n have "length (left_list d) + length (right_list d) - nat n = nat (dq_length d - n)"
    by (simp add: pdeque_inv_def)
  ultimately have "pdeque_list ?d' = take (nat (dq_length d - n)) (pdeque_list d)"
    by (simp add: pdeque_list_def reverse_rev)
  with res len mx show ?thesis
    by (simp add: pdeque_inv_def)
qed

lemma popleft_nonneg:
  assumes inv: "pdeque_inv d" and n: "0 \<le> n"
  shows "\<exists>d'. popleft d n = Inr d' \<and> pdeque_inv d' \<and> dq_length d' = max (dq_length d - n) 0 \<and>
           pdeque_list d' = drop (nat n) (pdeque_list d)"
proof -
  obtain nl nr where pl: "pop_lists (left_list d) (right_list d) n = (nl, nr)"
    by (cases "pop_lists (left_list d) (right_list d) n")
  let ?d' = "\<lparr>left_list = nl, right_list = nr, dq_length = max (dq_length d - n) 0, maxlen = maxlen d\<rparr>"
  from inv have mx: "(case maxlen d of None \<Rightarrow> True | Some m \<Rightarrow> 0 \<le> m)"
    by (simp add: pdeque_inv_def)
  from n pl have res: "popleft d n = Inr ?d'"
    by (simp add: popleft.simps PDeque_ok [OF mx])
  from pop_lists_length [OF n pl] inv have len: "int (length nl) + int (length nr) = max (dq_length d - n) 0"
    by (simp add: pdeque_inv_def)
  from pop_lists_content [OF n pl] have "pdeque_list ?d' = drop (nat n) (pdeque_list d)"
    by (simp add: pdeque_list_def reverse_rev)
  with res len mx show ?thesis
    by (simp add: pdeque_inv_def)
qed

lemma pdeque_empty_iff: "pdeque_inv d \<Longrightarrow> is_empty d \<longleftrightarrow> dq_length d = 0"
proof -
  assume "pdeque_inv d"
  then have "dq_length d = int (length (left_list d) + length (right_list d))"
    by (simp add: pdeque_inv_def)
  then show ?thesis
    by (simp add: is_empty_def flip: of_nat_add)
qed

text \<open>
  C10. For a deque \<open>d\<close> and a count \<open>n \<ge> 0\<close>, \<open>d.pop(n)\<close> and \<open>d.popleft(n)\<close> return a
  deque (no exception): its length is \<open>max(len(d) - n, 0)\<close>, it is empty when \<open>d\<close> is empty
  or holds at most \<open>n\<close> elements, and it holds the first \<open>len(d) - n\<close> elements of \<open>d\<close>
  (for \<open>pop\<close>) or all but the first \<open>n\<close> (for \<open>popleft\<close>). Moreover \<open>d.pop(-n)\<close> is
  \<open>d.popleft(n)\<close> and \<open>d.popleft(-n)\<close> is \<open>d.pop(n)\<close>.
\<close>

theorem pop_popleft_never_fail:
  assumes inv: "pdeque_inv d" and n: "0 \<le> n"
  shows "(\<exists>d'. pop d n = Inr d' \<and> pdeque_inv d' \<and> dq_length d' = max (dq_length d - n) 0 \<and>
            pdeque_list d' = take (nat (dq_length d - n)) (pdeque_list d) \<and>
            (is_empty d \<or> dq_length d \<le> n \<longrightarrow> is_empty d' \<and> dq_length d' = 0)) \<and>
         (\<exists>d'. popleft d n = Inr d' \<and> pdeque_inv d' \<and> dq_length d' = max (dq_length d - n) 0 \<and>
            pdeque_list d' = drop (nat n) (pdeque_list d) \<and>
            (is_empty d \<or> dq_length d \<le> n \<longrightarrow> is_empty d' \<and> dq_length d' = 0)) \<and>
         pop d (- n) = popleft d n \<and> popleft d (- n) = pop d n"
proof -
  from pop_nonneg [OF inv n] obtain d1 where d1: "pop d n = Inr d1" "pdeque_inv d1"
    "dq_length d1 = max (dq_length d - n) 0"
    "pdeque_list d1 = take (nat (dq_length d - n)) (pdeque_list d)"
    by blast
  from popleft_nonneg [OF inv n] obtain d2 where d2: "popleft d n = Inr d2" "pdeque_inv d2"
    "dq_length d2 = max (dq_length d - n) 0"
    "pdeque_list d2 = drop (nat n) (pdeque_list d)"
    by blast
  have e: "is_empty d \<or> dq_length d \<le> n \<Longrightarrow> dq_length d \<le> n"
    using pdeque_empty_iff [OF inv] n by auto
  have e1: "is_empty d \<or> dq_length d \<le> n \<longrightarrow> is_empty d1 \<and> dq_length d1 = 0"
    using e d1(3) pdeque_empty_iff [OF d1(2)] by auto
  have e2: "is_empty d \<or> dq_length d \<le> n \<longrightarrow> is_empty d2 \<and> dq_length d2 = 0"
    using e d2(3) pdeque_empty_iff [OF d2(2)] by auto
  have neg1: "pop d (- n) = popleft d n"
  proof (cases "n = 0")
    case True
    obtain a b where ab: "pop_lists (right_list d) (left_list d) 0 = (a, b)"
      by (cases "pop_lists (right_list d) (left_list d) 0")
    then have "(right_list d, left_list d) = (a, b)"
      by (subst (asm) pop_lists.simps) simp
    then have ab': "a = right_list d" "b = left_list d"
      by simp_all
    obtain a2 b2 where ab2: "pop_lists (left_list d) (right_list d) 0 = (a2, b2)"
      by (cases "pop_lists (left_list d) (right_list d) 0")
    then have "(left_list d, right_list d) = (a2, b2)"
      by (subst (asm) pop_lists.simps) simp
    then have ab2': "a2 = left_list d" "b2 = right_list d"
      by simp_all
    from True ab ab' ab2 ab2' show ?thesis
      by (simp add: pop.simps popleft.simps)
  next
    case False
    with n show ?thesis by (simp add: pop.simps [of d "- n"])
  qed
  have neg2: "popleft d (- n) = pop d n"
  proof (cases "n = 0")
    case True
    with neg1 show ?thesis by simp
  next
    case False
    with n show ?thesis by (simp add: popleft.simps [of d "- n"])
  qed
  from d1 d2 e1 e2 neg1 neg2 show ?thesis by simp
qed

text \<open>The deque \<open>pdeque([1, 2, 3])\<close> and a count beyond its length.\<close>

theorem pop_popleft_never_fail_witness:
  "pdeque_inv \<lparr>left_list = [1::nat], right_list = [3, 2], dq_length = 3, maxlen = None\<rparr> \<and>
   (0::int) \<le> 5 \<and>
   (\<exists>d'. pop \<lparr>left_list = [1::nat], right_list = [3, 2], dq_length = 3, maxlen = None\<rparr> 5 = Inr d' \<and>
      is_empty d' \<and> dq_length d' = 0) \<and>
   (\<exists>d'. popleft \<lparr>left_list = [1::nat], right_list = [3, 2], dq_length = 3, maxlen = None\<rparr> 5 = Inr d' \<and>
      is_empty d' \<and> dq_length d' = 0)"
proof -
  let ?d = "\<lparr>left_list = [1::nat], right_list = [3, 2], dq_length = 3, maxlen = None\<rparr>"
  have inv: "pdeque_inv ?d" by (simp add: pdeque_inv_def)
  have n: "(0::int) \<le> 5" by simp
  from pop_popleft_never_fail [OF inv n] inv show ?thesis by auto
qed

section \<open>PVector\<close>

text \<open>
  The trie of a vector is a nest of Python lists: the root (at level \<open>shift\<close>) and every
  list above level 0 hold child lists, a list at level 0 holds 32 elements. The model
  tags the two kinds of list. A list of the wrong kind for its level, which no
  operation below builds, makes an indexed access return \<open>TypeError\<close>.
\<close>

definition BRANCH_FACTOR :: nat where "BRANCH_FACTOR = 32"
definition BIT_MASK :: nat where "BIT_MASK = BRANCH_FACTOR - 1"
definition SHIFT :: nat where "SHIFT = 5"

datatype 'a node = Leaf "'a list" | Inner "'a node list"

datatype 'a pvector = PVector (count: nat) (shift: nat) (root: "'a node") (tail: "'a list")

text \<open>The derived attribute \<open>_tail_offset\<close>, set by \<open>__new__\<close> and at the end of \<open>_mutating_extend\<close>.\<close>

definition tail_offset :: "'a pvector \<Rightarrow> nat" where
  "tail_offset self = count self - length (tail self)"

text \<open>Reading and writing a Python list at an index that is not negative.\<close>

definition list_get :: "'a list \<Rightarrow> nat \<Rightarrow> error + 'a" where
  "list_get xs i = (if i < length xs then Inr (xs ! i) else Inl IndexError)"

definition list_put :: "'a list \<Rightarrow> nat \<Rightarrow> 'a \<Rightarrow> error + 'a list" where
  "list_put xs i x = (if i < length xs then Inr (xs[i := x]) else Inl IndexError)"

lemma size_nth_node [termination_simp]: "i < length ns \<Longrightarrow> size (ns ! i) < Suc (size_list size ns)"
  using size_list_estimation' [of "ns ! i" ns "size (ns ! i)" size] by simp

text \<open>\<open>PVector._fill_list\<close> and \<open>PVector._tolist\<close>.\<close>

fun fill_list :: "'a node \<Rightarrow> nat \<Rightarrow> 'a list" where
  "fill_list (Inner ns) shft = (if shft \<noteq> 0 then concat (map (\<lambda>n. fill_list n (shft - SHIFT)) ns) else [])"
| "fill_list (Leaf xs) shft = (if shft \<noteq> 0 then [] else xs)"

definition tolist :: "'a pvector \<Rightarrow> 'a list" where
  "tolist self = fill_list (root self) (shift self) @ tail self"

text \<open>\<open>PVector._node_for\<close>: the loop over the levels, then the function itself, on the
  fields of a vector or of an evolver.\<close>

fun node_walk :: "'a node \<Rightarrow> nat \<Rightarrow> nat \<Rightarrow> error + 'a node" where
  "node_walk (Inner ns) level i =
     (if level > 0 then
        (if drop_bit level i AND BIT_MASK < length ns
         then node_walk (ns ! (drop_bit level i AND BIT_MASK)) (level - SHIFT) i
         else Inl IndexError)
      else Inr (Inner ns))"
| "node_walk (Leaf xs) level i = (if level > 0 then Inl TypeError else Inr (Leaf xs))"

definition node_for :: "nat \<Rightarrow> nat \<Rightarrow> 'a node \<Rightarrow> 'a list \<Rightarrow> int \<Rightarrow> error + 'a list" where
  "node_for cnt shft rt tal i =
     (if 0 \<le> i \<and> i < int cnt then
        (if i \<ge> int (cnt - length tal) then Inr tal
         else (case node_walk rt shft (nat i) of
                 Inl e \<Rightarrow> Inl e
               | Inr (Leaf xs) \<Rightarrow> Inr xs
               | Inr (Inner ns) \<Rightarrow> Inl TypeError))
      else Inl IndexError)"

text \<open>\<open>PVector.__getitem__\<close> at an integer index.\<close>

definition getitem :: "'a pvector \<Rightarrow> int \<Rightarrow> error + 'a" where
  "getitem self index =
     (let index = (if index < 0 then index + int (count self) else index) in
      case node_for (count self) (shift self) (root self) (tail self) index of
        Inl e \<Rightarrow> Inl e
      | Inr nd \<Rightarrow> list_get nd (nat index AND BIT_MASK))"

text \<open>\<open>PVector._do_set\<close>: the path copy.\<close>

fun do_set :: "nat \<Rightarrow> 'a node \<Rightarrow> nat \<Rightarrow> 'a \<Rightarrow> error + 'a node" where
  "do_set level (Leaf ret) i val =
     (if level = 0 then
        (case list_put ret (i AND BIT_MASK) val of Inl e \<Rightarrow> Inl e | Inr ret' \<Rightarrow> Inr (Leaf ret'))
      else Inl TypeError)"
| "do_set level (Inner ret) i val =
     (if level = 0 then Inl TypeError
      else if drop_bit level i AND BIT_MASK < length ret then
        (case do_set (level - SHIFT) (ret ! (drop_bit level i AND BIT_MASK)) i val of
           Inl e \<Rightarrow> Inl e
         | Inr sub \<Rightarrow> Inr (Inner (ret[drop_bit level i AND BIT_MASK := sub])))
      else Inl IndexError)"

text \<open>\<open>PVector._new_path\<close>, \<open>PVector._push_tail\<close> (which reads \<open>self._count\<close>) and
  \<open>PVector._create_new_root\<close>.\<close>

function new_path :: "nat \<Rightarrow> 'a node \<Rightarrow> 'a node" where
  "new_path level node = (if level = 0 then node else Inner [new_path (level - SHIFT) node])"
  by pat_completeness auto
termination
  by (relation "measure fst") (auto simp: SHIFT_def)

declare new_path.simps [simp del]

fun push_tail :: "nat \<Rightarrow> nat \<Rightarrow> 'a node \<Rightarrow> 'a node \<Rightarrow> 'a node" where
  "push_tail cnt level (Inner ret) tail_node =
     (if level = SHIFT then Inner (ret @ [tail_node])
      else if length ret > drop_bit level (cnt - 1) AND BIT_MASK then
        Inner (ret[drop_bit level (cnt - 1) AND BIT_MASK :=
                 push_tail cnt (level - SHIFT) (ret ! (drop_bit level (cnt - 1) AND BIT_MASK)) tail_node])
      else Inner (ret @ [new_path (level - SHIFT) tail_node]))"
| "push_tail cnt level (Leaf xs) tail_node = Leaf xs"

definition create_new_root :: "'a pvector \<Rightarrow> 'a node \<times> nat" where
  "create_new_root self =
     (if drop_bit SHIFT (count self) > push_bit (shift self) 1 then
        (Inner [root self, new_path (shift self) (Leaf (tail self))], shift self + SHIFT)
      else (push_tail (count self) (shift self) (root self) (Leaf (tail self)), shift self))"

text \<open>\<open>PVector.append\<close>.\<close>

definition append_pvector :: "'a pvector \<Rightarrow> 'a \<Rightarrow> 'a pvector" where
  "append_pvector self val =
     (if length (tail self) < BRANCH_FACTOR then
        PVector (count self + 1) (shift self) (root self) (tail self @ [val])
      else (case create_new_root self of
              (new_root, new_shift) \<Rightarrow> PVector (count self + 1) new_shift new_root [val]))"

text \<open>\<open>PVector.set\<close> at an integer index.\<close>

definition set_pvector :: "'a pvector \<Rightarrow> int \<Rightarrow> 'a \<Rightarrow> error + 'a pvector" where
  "set_pvector self i val =
     (let i = (if i < 0 then i + int (count self) else i) in
      if 0 \<le> i \<and> i < int (count self) then
        (if i \<ge> int (tail_offset self) then
           (case list_put (tail self) (nat i AND BIT_MASK) val of
              Inl e \<Rightarrow> Inl e
            | Inr new_tail \<Rightarrow> Inr (PVector (count self) (shift self) (root self) new_tail))
         else
           (case do_set (shift self) (root self) (nat i) val of
              Inl e \<Rightarrow> Inl e
            | Inr new_root \<Rightarrow> Inr (PVector (count self) (shift self) new_root (tail self))))
      else if i = int (count self) then Inr (append_pvector self val)
      else Inl IndexError)"

text \<open>
  The bulk load of \<open>extend\<close>. \<open>_mutating_insert_tail\<close> and \<open>_mutating_fill_tail\<close> update
  the vector under construction, which no one else holds yet; the model returns the
  updated vector. The \<open>while\<close> loop of \<open>_mutating_extend\<close> makes no progress on a
  vector whose tail is longer than \<open>BRANCH_FACTOR\<close>, so it is a partial function:
  \<open>None\<close> stands for a loop that never ends.
\<close>

definition mutating_insert_tail :: "'a pvector \<Rightarrow> 'a pvector" where
  "mutating_insert_tail self =
     (case create_new_root self of (new_root, new_shift) \<Rightarrow> PVector (count self) new_shift new_root [])"

definition mutating_fill_tail :: "'a pvector \<Rightarrow> nat \<Rightarrow> 'a list \<Rightarrow> 'a pvector \<times> nat" where
  "mutating_fill_tail self offset sequence =
     (let max_delta_len = BRANCH_FACTOR - length (tail self);
          delta = take max_delta_len (drop offset sequence);
          delta_len = length delta
      in (PVector (count self + delta_len) (shift self) (root self) (tail self @ delta),
          offset + delta_len))"

partial_function (option) mutating_extend_loop :: "'a pvector \<Rightarrow> nat \<Rightarrow> 'a list \<Rightarrow> 'a pvector option" where
  "mutating_extend_loop self offset sequence =
     (if offset < length sequence then
        (case mutating_fill_tail self offset sequence of
           (self1, offset1) \<Rightarrow>
             mutating_extend_loop
               (if length (tail self1) = BRANCH_FACTOR then mutating_insert_tail self1 else self1)
               offset1 sequence)
      else Some self)"

declare mutating_extend_loop.simps [code]

definition mutating_extend :: "'a pvector \<Rightarrow> 'a list \<Rightarrow> 'a pvector option" where
  "mutating_extend self sequence = mutating_extend_loop self 0 sequence"

text \<open>
  \<open>PVector.extend\<close> on the list \<open>l\<close> of the elements of its argument. The loop is run on
  the vector \<open>append\<close> has just built, whose tail holds at most \<open>BRANCH_FACTOR\<close> elements,
  and it returns there (lemma \<open>mutating_extend_returns\<close> below).
\<close>

definition extend_pvector :: "'a pvector \<Rightarrow> 'a list \<Rightarrow> 'a pvector" where
  "extend_pvector self l =
     (case l of
        [] \<Rightarrow> self
      | x # xs \<Rightarrow> the (mutating_extend (append_pvector self x) xs))"

definition EMPTY_VECTOR :: "'a pvector" where
  "EMPTY_VECTOR = PVector 0 SHIFT (Inner []) []"

definition pvector :: "'a list \<Rightarrow> 'a pvector" where
  "pvector iterable = extend_pvector EMPTY_VECTOR iterable"


subsection \<open>Index arithmetic\<close>

lemma and_BIT_MASK: "(x::nat) AND BIT_MASK = x mod 32"
proof -
  have "x AND mask 5 = x mod 2 ^ 5"
    by (simp add: take_bit_eq_mod flip: take_bit_eq_mask)
  then show ?thesis
    by (simp add: BIT_MASK_def BRANCH_FACTOR_def mask_eq_exp_minus_1)
qed

lemma pow_level: "(2::nat) ^ (SHIFT * h) = 32 ^ h"
  by (simp add: SHIFT_def power_mult)

lemma sub_index_eq: "drop_bit (SHIFT * Suc h) (i::nat) AND BIT_MASK = (i div (32 * 32 ^ h)) mod 32"
  by (simp add: and_BIT_MASK drop_bit_eq_div pow_level del: mult_Suc_right)

lemma level_pred: "SHIFT * Suc h - SHIFT = SHIFT * h"
  by simp

lemma level_pos: "SHIFT * Suc h > 0" "SHIFT * Suc h \<noteq> 0"
  by (simp_all add: SHIFT_def)

subsection \<open>Lists of blocks\<close>

lemma length_concat_uniform:
  "\<forall>j<length xss. length (xss ! j) = b \<Longrightarrow> length (concat xss) = length xss * b"
proof (induction xss)
  case Nil
  then show ?case by simp
next
  case (Cons xs xss)
  from Cons.prems have "length xs = b" by auto
  moreover from Cons.prems have "\<forall>j<length xss. length (xss ! j) = b" by auto
  ultimately show ?case using Cons.IH by simp
qed

lemma concat_split_at:
  "k < length xss \<Longrightarrow> concat xss = concat (take k xss) @ xss ! k @ concat (drop (Suc k) xss)"
  by (metis concat.simps(2) concat_append id_take_nth_drop)

lemma length_concat_take:
  assumes "\<forall>j<k. length (xss ! j) = b" and "k \<le> length xss"
  shows "length (concat (take k xss)) = k * b"
proof -
  have "\<forall>j<length (take k xss). length (take k xss ! j) = b"
    using assms by simp
  from length_concat_uniform [OF this] assms(2) show ?thesis by simp
qed

lemma concat_nth_block:
  assumes "\<forall>j<k. length (xss ! j) = b" and "k < length xss" and "r < length (xss ! k)"
  shows "concat xss ! (k * b + r) = xss ! k ! r"
proof -
  have len: "length (concat (take k xss)) = k * b"
    using assms by (intro length_concat_take) auto
  show ?thesis
    by (subst concat_split_at [OF assms(2)]) (simp add: nth_append len assms(3))
qed

lemma concat_update_block:
  assumes "\<forall>j<k. length (xss ! j) = b" and "k < length xss" and "r < length (xss ! k)"
  shows "(concat xss)[k * b + r := v] = concat (xss[k := (xss ! k)[r := v]])"
proof -
  have len: "length (concat (take k xss)) = k * b"
    using assms by (intro length_concat_take) auto
  have "concat (xss[k := (xss ! k)[r := v]]) =
        concat (take k xss) @ (xss ! k)[r := v] @ concat (drop (Suc k) xss)"
    using assms(2) by (subst concat_split_at [of k]) (simp_all add: take_update_cancel drop_update_cancel)
  moreover have "(concat xss)[k * b + r := v] =
        concat (take k xss) @ (xss ! k)[r := v] @ concat (drop (Suc k) xss)"
    by (subst concat_split_at [OF assms(2)]) (simp add: list_update_append len assms(3))
  ultimately show ?thesis by simp
qed


subsection \<open>The shape of the trie\<close>

text \<open>
  \<open>wf_node h m node\<close>: \<open>node\<close> is a trie of height \<open>h\<close> (level \<open>SHIFT * h\<close>) that holds
  exactly \<open>m\<close> leaves of \<open>BRANCH_FACTOR\<close> elements each, filled from the left: every child
  but the last is full.
\<close>

fun wf_node :: "nat \<Rightarrow> nat \<Rightarrow> 'a node \<Rightarrow> bool" where
  "wf_node 0 m (Leaf xs) \<longleftrightarrow> m = 1 \<and> length xs = BRANCH_FACTOR"
| "wf_node (Suc h) m (Inner ns) \<longleftrightarrow>
     length ns \<le> BRANCH_FACTOR \<and> m \<le> length ns * 32 ^ h \<and>
     (\<forall>j<length ns. j * 32 ^ h < m \<and> wf_node h (min (32 ^ h) (m - j * 32 ^ h)) (ns ! j))"
| "wf_node 0 m (Inner ns) \<longleftrightarrow> False"
| "wf_node (Suc h) m (Leaf xs) \<longleftrightarrow> False"

text \<open>
  The vectors the operations build: \<open>shift\<close> is a positive multiple of \<open>SHIFT\<close>, the tail
  holds at most \<open>BRANCH_FACTOR\<close> elements, and the trie holds the \<open>tail_offset\<close> elements
  before the tail in full leaves.
\<close>

definition pvector_inv :: "'a pvector \<Rightarrow> bool" where
  "pvector_inv v \<longleftrightarrow>
     shift v mod SHIFT = 0 \<and> SHIFT \<le> shift v \<and>
     length (tail v) \<le> BRANCH_FACTOR \<and> length (tail v) \<le> count v \<and>
     tail_offset v mod BRANCH_FACTOR = 0 \<and>
     wf_node (shift v div SHIFT) (tail_offset v div BRANCH_FACTOR) (root v)"

lemma min_full: "Suc j * P \<le> m \<Longrightarrow> min P (m - j * P) = (P::nat)"
  by (simp add: min_def) 

lemma min_full_Suc: "Suc j * P \<le> m \<Longrightarrow> min P (Suc m - j * P) = (P::nat)"
  by (rule min_full) simp

lemma idx_arith:
  fixes i m P :: nat
  assumes i: "i < 32 * m"
  defines "sidx \<equiv> i div (32 * P)"
  shows "sidx * P < m \<or> P = 0" and "P > 0 \<Longrightarrow> i mod (32 * P) < 32 * (m - sidx * P)"
    and "sidx * (32 * P) + i mod (32 * P) = i" and "\<And>j. j < sidx \<Longrightarrow> Suc j * P \<le> m"
proof -
  have le: "sidx * (32 * P) \<le> i"
    unfolding sidx_def by (rule div_times_less_eq_dividend)
  then have "32 * (sidx * P) < 32 * m"
    using i by (simp add: mult.assoc mult.left_commute)
  then show subm: "sidx * P < m \<or> P = 0" by simp
  show dm: "sidx * (32 * P) + i mod (32 * P) = i"
    unfolding sidx_def by (rule div_mult_mod_eq)
  show "i mod (32 * P) < 32 * (m - sidx * P)" if "P > 0"
  proof -
    have "i mod (32 * P) = i - sidx * (32 * P)"
      using dm by linarith
    also have "\<dots> < 32 * m - sidx * (32 * P)"
      using i le by linarith
    also have "\<dots> = 32 * (m - sidx * P)"
      by (simp add: diff_mult_distrib2 mult.assoc mult.left_commute)
    finally show ?thesis .
  qed
  show "Suc j * P \<le> m" if "j < sidx" for j
  proof -
    from that have "Suc j \<le> sidx" by simp
    then have "Suc j * P \<le> sidx * P" by (rule mult_le_mono1)
    moreover have "32 * (sidx * P) < 32 * m"
      using i le by (simp add: mult.assoc mult.left_commute)
    ultimately show ?thesis by simp
  qed
qed

lemma mod_div_digit: "(i mod (32 * E)) div E = (i div E) mod (32::nat)"
proof (cases "E = 0")
  case True
  then show ?thesis by simp
next
  case False
  have "i mod (E * 32) = E * (i div E mod 32) + i mod E"
    by (rule mod_mult2_eq)
  then have "(i mod (E * 32)) div E = (E * (i div E mod 32) + i mod E) div E"
    by simp
  also have "\<dots> = i div E mod 32"
    using False by simp
  finally show ?thesis
    by (simp add: mult.commute)
qed

lemma mod_mod_digit: "(i mod (32 * E)) mod E = i mod (E::nat)"
  by (simp add: mod_mod_cancel)

lemma fill_list_Inner: "fill_list (Inner ns) (SHIFT * Suc h) = concat (map (\<lambda>n. fill_list n (SHIFT * h)) ns)"
  by (simp add: SHIFT_def)

lemma length_fill_list:
  "wf_node h m node \<Longrightarrow> length (fill_list node (SHIFT * h)) = 32 * m"
proof (induction h arbitrary: m node)
  case 0
  then show ?case by (cases node) (auto simp: BRANCH_FACTOR_def)
next
  case (Suc h)
  from Suc.prems obtain ns where node: "node = Inner ns"
    by (cases node) auto
  let ?P = "32 ^ h :: nat"
  let ?xss = "map (\<lambda>n. fill_list n (SHIFT * h)) ns"
  from Suc.prems node have m_le: "m \<le> length ns * ?P"
    and ch: "\<And>j. j < length ns \<Longrightarrow> j * ?P < m \<and> wf_node h (min ?P (m - j * ?P)) (ns ! j)"
    by auto
  show ?case
  proof (cases "ns = []")
    case True
    with m_le node show ?thesis by (simp add: SHIFT_def)
  next
    case False
    define k where "k = length ns - 1"
    from False have k: "k < length ns" "length ns = Suc k"
      by (auto simp: k_def)
    have full: "length (?xss ! j) = 32 * ?P" if "j < k" for j
    proof -
      from that k have j: "j < length ns" by simp
      from that have "Suc j \<le> k" by simp
      then have "Suc j * ?P \<le> k * ?P" by (rule mult_le_mono1)
      with ch [OF k(1)] have "Suc j * ?P \<le> m" by linarith
      then have "min ?P (m - j * ?P) = ?P" by (rule min_full)
      with ch [OF j] Suc.IH [of "min ?P (m - j * ?P)" "ns ! j"] j show ?thesis by simp
    qed
    have lst: "length (?xss ! k) = 32 * (m - k * ?P)"
    proof -
      from m_le k have "m - k * ?P \<le> ?P" by simp
      then have "min ?P (m - k * ?P) = m - k * ?P" by simp
      with ch [OF k(1)] Suc.IH [of "min ?P (m - k * ?P)" "ns ! k"] k show ?thesis by simp
    qed
    have "length (concat (take k ?xss)) = k * (32 * ?P)"
      using full k by (intro length_concat_take) auto
    moreover have "concat ?xss = concat (take k ?xss) @ ?xss ! k @ concat (drop (Suc k) ?xss)"
      using k by (intro concat_split_at) simp
    moreover have "drop (Suc k) ?xss = []"
      using k by simp
    ultimately have "length (concat ?xss) = k * (32 * ?P) + 32 * (m - k * ?P)"
      using lst by simp
    also have "\<dots> = 32 * m"
      using ch [OF k(1)] by (simp add: diff_mult_distrib2 mult.assoc mult.left_commute)
    finally show ?thesis
      using node by (simp only: fill_list_Inner)
  qed
qed


lemma wf_descend:
  assumes wf: "wf_node (Suc h) m (Inner ns)" and i: "i mod (32 * (32 * 32 ^ h)) < 32 * m"
  defines "sidx \<equiv> drop_bit (SHIFT * Suc h) i AND BIT_MASK"
  shows "sidx < length ns"
    and "wf_node h (min (32 ^ h) (m - sidx * 32 ^ h)) (ns ! sidx)"
    and "i mod (32 * 32 ^ h) < 32 * min (32 ^ h) (m - sidx * 32 ^ h)"
    and "\<forall>j < sidx. length (fill_list (ns ! j) (SHIFT * h)) = 32 * 32 ^ h"
    and "i mod (32 * (32 * 32 ^ h)) = sidx * (32 * 32 ^ h) + i mod (32 * 32 ^ h)"
proof -
  let ?P = "32 ^ h :: nat"
  let ?E = "32 * ?P"
  let ?I = "i mod (32 * ?E)"
  have P: "?P > 0" by simp
  have sidx: "sidx = ?I div ?E"
    unfolding sidx_def by (simp only: sub_index_eq mod_div_digit)
  have IE: "?I mod ?E = i mod ?E"
    by (rule mod_mod_digit)
  from wf have m_le: "m \<le> length ns * ?P"
    and ch: "\<And>j. j < length ns \<Longrightarrow> j * ?P < m \<and> wf_node h (min ?P (m - j * ?P)) (ns ! j)"
    by auto
  from idx_arith(1) [OF i, of ?P] P have subm: "sidx * ?P < m"
    by (simp add: sidx)
  with m_le have "sidx * ?P < length ns * ?P" by linarith
  then show sub_lt: "sidx < length ns" by simp
  from ch [OF sub_lt] show "wf_node h (min ?P (m - sidx * ?P)) (ns ! sidx)" by simp
  from idx_arith(2) [OF i P] have "i mod ?E < 32 * (m - sidx * ?P)"
    by (simp only: sidx IE)
  moreover have "i mod ?E < 32 * ?P" by simp
  ultimately show "i mod ?E < 32 * min ?P (m - sidx * ?P)"
    by (simp add: min_def)
  show "\<forall>j < sidx. length (fill_list (ns ! j) (SHIFT * h)) = 32 * ?P"
  proof (intro allI impI)
    fix j assume j: "j < sidx"
    then have "j < ?I div ?E" by (simp only: sidx)
    from idx_arith(4) [OF i this] have "min ?P (m - j * ?P) = ?P"
      by (rule min_full)
    moreover from j sub_lt have "j < length ns" by simp
    ultimately show "length (fill_list (ns ! j) (SHIFT * h)) = 32 * ?P"
      using ch [of j] length_fill_list [of h "min ?P (m - j * ?P)" "ns ! j"] by simp
  qed
  from idx_arith(3) [OF i, of ?P] show "?I = sidx * ?E + i mod ?E"
    by (simp only: sidx IE)
qed

lemma node_walk_wf:
  "wf_node h m node \<Longrightarrow> i mod (32 * 32 ^ h) < 32 * m \<Longrightarrow>
   \<exists>xs. node_walk node (SHIFT * h) i = Inr (Leaf xs) \<and> length xs = 32 \<and>
        xs ! (i mod 32) = fill_list node (SHIFT * h) ! (i mod (32 * 32 ^ h))"
proof (induction h arbitrary: m node)
  case 0
  then show ?case by (cases node) (auto simp: BRANCH_FACTOR_def)
next
  case (Suc h)
  from Suc.prems(1) obtain ns where node: "node = Inner ns"
    by (cases node) auto
  define sidx where "sidx = drop_bit (SHIFT * Suc h) i AND BIT_MASK"
  let ?E = "32 * 32 ^ h :: nat"
  let ?xss = "map (\<lambda>n. fill_list n (SHIFT * h)) ns"
  from Suc.prems have i: "i mod (32 * ?E) < 32 * m" by simp
  note d = wf_descend [OF Suc.prems(1) [unfolded node] i, folded sidx_def]
  from Suc.IH [OF d(2) d(3)] obtain xs where
    xs: "node_walk (ns ! sidx) (SHIFT * h) i = Inr (Leaf xs)" "length xs = 32"
      "xs ! (i mod 32) = fill_list (ns ! sidx) (SHIFT * h) ! (i mod ?E)"
    by blast
  have walk: "node_walk node (SHIFT * Suc h) i = node_walk (ns ! sidx) (SHIFT * h) i"
    unfolding node using d(1) level_pos(1) [of h]
    by (simp only: node_walk.simps sidx_def [symmetric] level_pred if_True)
  have r: "i mod ?E < length (?xss ! sidx)"
    using d(1) d(3) length_fill_list [OF d(2)] by simp
  have "concat ?xss ! (sidx * ?E + i mod ?E) = ?xss ! sidx ! (i mod ?E)"
    using d(1) d(4) r by (intro concat_nth_block) auto
  then have "fill_list node (SHIFT * Suc h) ! (i mod (32 * ?E)) = fill_list (ns ! sidx) (SHIFT * h) ! (i mod ?E)"
    using d(1) by (simp only: node fill_list_Inner d(5)) simp
  with xs walk show ?case by simp
qed

lemma do_set_wf:
  "wf_node h m node \<Longrightarrow> i mod (32 * 32 ^ h) < 32 * m \<Longrightarrow>
   \<exists>node'. do_set (SHIFT * h) node i val = Inr node' \<and> wf_node h m node' \<and>
        fill_list node' (SHIFT * h) = (fill_list node (SHIFT * h))[i mod (32 * 32 ^ h) := val]"
proof (induction h arbitrary: m node)
  case 0
  then show ?case
    by (cases node) (auto simp: BRANCH_FACTOR_def list_put_def and_BIT_MASK)
next
  case (Suc h)
  from Suc.prems(1) obtain ns where node: "node = Inner ns"
    by (cases node) auto
  define sidx where "sidx = drop_bit (SHIFT * Suc h) i AND BIT_MASK"
  let ?P = "32 ^ h :: nat"
  let ?E = "32 * ?P"
  let ?f = "\<lambda>n. fill_list n (SHIFT * h)"
  let ?xss = "map ?f ns"
  from Suc.prems have i: "i mod (32 * ?E) < 32 * m" by simp
  note d = wf_descend [OF Suc.prems(1) [unfolded node] i, folded sidx_def]
  from Suc.IH [OF d(2) d(3)] obtain c where
    c: "do_set (SHIFT * h) (ns ! sidx) i val = Inr c" "wf_node h (min ?P (m - sidx * ?P)) c"
      "?f c = (?f (ns ! sidx))[i mod ?E := val]"
    by blast
  have res: "do_set (SHIFT * Suc h) node i val = Inr (Inner (ns[sidx := c]))"
    unfolding node using d(1) level_pos(2) [of h] c(1)
    by (simp only: do_set.simps sidx_def [symmetric] level_pred if_True if_False sum.case)
  from Suc.prems(1) node have m_le: "m \<le> length ns * ?P" "length ns \<le> BRANCH_FACTOR"
    and ch: "\<And>j. j < length ns \<Longrightarrow> j * ?P < m \<and> wf_node h (min ?P (m - j * ?P)) (ns ! j)"
    by auto
  have "wf_node h (min ?P (m - j * ?P)) (ns[sidx := c] ! j)" if "j < length ns" for j
    using that ch [OF that] c(2) by (cases "j = sidx") simp_all
  then have wf': "wf_node (Suc h) m (Inner (ns[sidx := c]))"
    using m_le ch by simp
  have r: "i mod ?E < length (?xss ! sidx)"
    using d(1) d(3) length_fill_list [OF d(2)] by simp
  have "(concat ?xss)[sidx * ?E + i mod ?E := val] = concat (?xss[sidx := (?xss ! sidx)[i mod ?E := val]])"
    using d(1) d(4) r by (intro concat_update_block) auto
  moreover have "?xss[sidx := (?xss ! sidx)[i mod ?E := val]] = map ?f (ns[sidx := c])"
    using d(1) c(3) by (simp add: map_update)
  ultimately have "fill_list (Inner (ns[sidx := c])) (SHIFT * Suc h) =
      (fill_list node (SHIFT * Suc h))[i mod (32 * ?E) := val]"
    by (simp only: node fill_list_Inner d(5))
  with res wf' show ?case by simp
qed


lemma new_path_wf:
  "length xs = 32 \<Longrightarrow>
   wf_node h 1 (new_path (SHIFT * h) (Leaf xs)) \<and>
   fill_list (new_path (SHIFT * h) (Leaf xs)) (SHIFT * h) = xs"
proof (induction h)
  case 0
  then show ?case by (simp add: new_path.simps BRANCH_FACTOR_def)
next
  case (Suc h)
  have "new_path (SHIFT * Suc h) (Leaf xs) = Inner [new_path (SHIFT * h) (Leaf xs)]"
    by (subst new_path.simps) (simp add: SHIFT_def)
  moreover have "fill_list (Inner [new_path (SHIFT * h) (Leaf xs)]) (SHIFT * Suc h) =
      fill_list (new_path (SHIFT * h) (Leaf xs)) (SHIFT * h)"
    by (simp only: fill_list_Inner) simp
  moreover have "Suc 0 \<le> (32::nat) ^ h"
    by simp
  then have "min (32 ^ h) (Suc 0) = Suc 0"
    by (rule min.absorb2)
  then have "wf_node (Suc h) 1 (Inner [new_path (SHIFT * h) (Leaf xs)])"
    using Suc by (simp add: BRANCH_FACTOR_def)
  ultimately show ?case using Suc by simp
qed

lemma last_child_partial:
  fixes m P L :: nat
  assumes "0 < P" and "m mod P \<noteq> 0" and "m \<le> L * P" and "\<forall>j<L. j * P < m"
  shows "m div P = L - 1" and "Suc m \<le> L * P" and "0 < L"
proof -
  from assms(2) have m0: "m \<noteq> 0" by (cases "m = 0") auto
  with assms(3) show L: "0 < L" by (cases L) auto
  then have "(L - 1) * P < m" using assms(4) by simp
  then have lo: "L - 1 \<le> m div P"
    using assms(1) by (simp add: less_eq_div_iff_mult_less_eq less_imp_le)
  have "m \<noteq> L * P" using assms(2) by auto
  with assms(3) have lt: "m < L * P" by simp
  then have "m div P < L"
    using assms(1) by (simp add: div_less_iff_less_mult)
  with lo show "m div P = L - 1" by simp
  from lt show "Suc m \<le> L * P" by simp
qed

lemma last_child_full:
  fixes m P L :: nat
  assumes "0 < P" and "m mod P = 0" and "m \<le> L * P" and "\<forall>j<L. j * P < m"
  shows "m div P = L" and "m = L * P"
proof -
  from assms(2) have "P dvd m"
    by (rule mod_0_imp_dvd)
  then obtain q where q: "m = q * P"
    by (auto simp: dvd_def mult.commute)
  with assms(1,3) have "q \<le> L" by simp
  moreover have "\<not> q < L"
  proof
    assume "q < L"
    with assms(4) have "q * P < m" by simp
    with q show False by simp
  qed
  ultimately have "q = L" by simp
  with q show "m = L * P" by simp
  with assms(1) show "m div P = L" by simp
qed

lemma push_tail_wf:
  assumes "wf_node (Suc h) m node" and "m < 32 * 32 ^ h" and "length xs = 32"
    and "((cnt - 1) div 32) mod (32 * 32 ^ h) = m"
  shows "wf_node (Suc h) (Suc m) (push_tail cnt (SHIFT * Suc h) node (Leaf xs)) \<and>
         fill_list (push_tail cnt (SHIFT * Suc h) node (Leaf xs)) (SHIFT * Suc h) =
           fill_list node (SHIFT * Suc h) @ xs"
  using assms
proof (induction h arbitrary: m node)
  case 0
  from "0.prems"(1) obtain ns where node: "node = Inner ns"
    by (cases node) auto
  from "0.prems"(1) node have m_le: "m \<le> length ns"
    and ch0: "\<And>j. j < length ns \<Longrightarrow> j < m \<and> wf_node 0 (min 1 (m - j)) (ns ! j)"
    by auto
  have "\<not> m < length ns"
    using ch0 [of m] by auto
  with m_le have ch: "length ns \<le> m" "m \<le> length ns"
    by simp_all
  have ch3: "wf_node 0 1 (ns ! j)" if "j < length ns" for j
  proof -
    from ch0 [OF that] have "j < m" by simp
    then have "min 1 (m - j) = 1" by (simp add: min_def)
    with ch0 [OF that] show ?thesis by simp
  qed
  have res: "push_tail cnt (SHIFT * Suc 0) node (Leaf xs) = Inner (ns @ [Leaf xs])"
    by (simp add: node)
  have "wf_node 0 (min 1 (Suc m - j)) ((ns @ [Leaf xs]) ! j)" if "j < Suc (length ns)" for j
  proof (cases "j < length ns")
    case True
    with ch have "min 1 (Suc m - j) = 1" by (simp add: min_def)
    with True ch3 show ?thesis by (simp add: nth_append)
  next
    case False
    with that have "j = length ns" by simp
    moreover have "Suc m - length ns = 1" using ch by simp
    ultimately show ?thesis using "0.prems"(3) by (simp add: BRANCH_FACTOR_def)
  qed
  with ch "0.prems"(2) have "wf_node (Suc 0) (Suc m) (Inner (ns @ [Leaf xs]))"
    by (simp add: BRANCH_FACTOR_def)
  moreover have "fill_list (Inner (ns @ [Leaf xs])) (SHIFT * Suc 0) = fill_list node (SHIFT * Suc 0) @ xs"
    by (simp add: node SHIFT_def)
  ultimately show ?case by (simp only: res)
next
  case (Suc h)
  note power_Suc [simp del]
  from Suc.prems(1) obtain ns where node: "node = Inner ns"
    by (cases node) auto
  let ?P = "32 ^ Suc h :: nat"
  let ?L = "length ns"
  let ?lv = "SHIFT * Suc (Suc h)"
  let ?f = "\<lambda>n. fill_list n (SHIFT * Suc h)"
  define sidx where "sidx = drop_bit ?lv (cnt - 1) AND BIT_MASK"
  have P: "0 < ?P" by simp
  from Suc.prems(1) node have L32: "?L \<le> 32" and m_le: "m \<le> ?L * ?P"
    and ch: "\<And>j. j < ?L \<Longrightarrow> j * ?P < m \<and> wf_node (Suc h) (min ?P (m - j * ?P)) (ns ! j)"
    by (auto simp: BRANCH_FACTOR_def)
  then have lo: "\<forall>j<?L. j * ?P < m" by simp
  have "sidx = ((cnt - 1) div (32 * ?P)) mod 32"
    unfolding sidx_def by (simp only: sub_index_eq power_Suc)
  also have "\<dots> = (((cnt - 1) div 32) div ?P) mod 32"
    by (simp only: div_mult2_eq)
  also have "\<dots> = (((cnt - 1) div 32) mod (32 * ?P)) div ?P"
    by (simp only: mod_div_digit)
  also have "\<dots> = m div ?P"
    using Suc.prems(4) by (simp only: power_Suc)
  finally have sidx: "sidx = m div ?P" .
  have nl: "?lv \<noteq> SHIFT" "?lv - SHIFT = SHIFT * Suc h"
    by (simp_all add: SHIFT_def)
  have full_before: "min ?P (Suc m - j * ?P) = ?P \<and> min ?P (m - j * ?P) = ?P" if "Suc j * ?P \<le> m" for j
    using min_full [OF that] min_full_Suc [OF that] by (rule conjI [rotated])
  show ?case
  proof (cases "m mod ?P = 0")
    case True
    from last_child_full [OF P True m_le lo] have eq: "m div ?P = ?L" "m = ?L * ?P" .
    have res: "push_tail cnt ?lv node (Leaf xs) = Inner (ns @ [new_path (SHIFT * Suc h) (Leaf xs)])"
      unfolding node using eq(1) sidx nl
      by (simp only: push_tail.simps sidx_def [symmetric] if_False) simp
    note np = new_path_wf [OF Suc.prems(3), of "Suc h"]
    from Suc.prems(2) eq(2) have Llt: "?L < 32" by simp
    have "wf_node (Suc h) (min ?P (Suc m - j * ?P)) ((ns @ [new_path (SHIFT * Suc h) (Leaf xs)]) ! j)"
      if "j < Suc ?L" for j
    proof (cases "j < ?L")
      case True
      then have "Suc j * ?P \<le> ?L * ?P" by (intro mult_le_mono1) simp
      with eq(2) have "Suc j * ?P \<le> m" by linarith
      from full_before [OF this] ch [OF True] True show ?thesis
        by (simp add: nth_append)
    next
      case False
      with that have j: "j = ?L" by simp
      have "Suc m - ?L * ?P = 1"
        using eq(2) by simp
      moreover have "1 \<le> ?P"
        by simp
      ultimately have "min ?P (Suc m - ?L * ?P) = 1"
        by (simp only: min.absorb2)
      with np j show ?thesis by (simp add: nth_append)
    qed
    moreover have "j * ?P < Suc m" if "j < Suc ?L" for j
    proof -
      from that have "j * ?P \<le> ?L * ?P" by (intro mult_le_mono1) simp
      with eq(2) show ?thesis by linarith
    qed
    moreover have "Suc m \<le> Suc ?L * ?P"
      using eq(2) by simp
    ultimately have wf': "wf_node (Suc (Suc h)) (Suc m) (Inner (ns @ [new_path (SHIFT * Suc h) (Leaf xs)]))"
      using Llt by (simp add: BRANCH_FACTOR_def del: power_Suc mult_Suc)
    have "fill_list (Inner (ns @ [new_path (SHIFT * Suc h) (Leaf xs)])) ?lv = fill_list node ?lv @ xs"
      using np by (simp only: node fill_list_Inner) simp
    with wf' res show ?thesis by simp
  next
    case False
    from last_child_partial [OF P False m_le lo] have eq: "m div ?P = ?L - 1" "Suc m \<le> ?L * ?P" "0 < ?L" .
    then have sL: "sidx < ?L" "Suc sidx = ?L" using sidx by simp_all
    have msub: "m - sidx * ?P = m mod ?P"
      unfolding sidx by (metis minus_div_mult_eq_mod)
    have mP: "m mod ?P < ?P" using P by simp
    then have minm: "min ?P (m - sidx * ?P) = m mod ?P"
      by (simp add: msub)
    from ch [OF sL(1)] have chl: "wf_node (Suc h) (m mod ?P) (ns ! sidx)"
      by (simp only: minm)
    have "m mod ?P = ((cnt - 1) div 32) mod ?P"
      using mod_mod_digit [of "(cnt - 1) div 32" ?P] by (simp only: Suc.prems(4))
    then have cm: "((cnt - 1) div 32) mod (32 * 32 ^ h) = m mod ?P"
      by (simp only: power_Suc)
    from mP have mP': "m mod ?P < 32 * 32 ^ h"
      by (simp only: power_Suc)
    note IH0 = Suc.IH [OF chl mP' Suc.prems(3) cm]
    have IH: "wf_node (Suc h) (Suc (m mod ?P)) (push_tail cnt (SHIFT * Suc h) (ns ! sidx) (Leaf xs))"
      "?f (push_tail cnt (SHIFT * Suc h) (ns ! sidx) (Leaf xs)) = ?f (ns ! sidx) @ xs"
      using IH0 by blast+
    let ?c = "push_tail cnt (SHIFT * Suc h) (ns ! sidx) (Leaf xs)"
    have res: "push_tail cnt ?lv node (Leaf xs) = Inner (ns[sidx := ?c])"
      unfolding node using sL(1) nl
      by (simp only: push_tail.simps sidx_def [symmetric] if_False if_True)
    have "wf_node (Suc h) (min ?P (Suc m - j * ?P)) (ns[sidx := ?c] ! j)" if "j < ?L" for j
    proof (cases "j = sidx")
      case True
      have "Suc m - sidx * ?P = Suc (m mod ?P)"
        using msub by (metis Suc_diff_le div_times_less_eq_dividend sidx)
      moreover have "Suc (m mod ?P) \<le> ?P"
        using mP by linarith
      ultimately have "min ?P (Suc m - sidx * ?P) = Suc (m mod ?P)"
        by (simp only: min.absorb2)
      with IH(1) True sL(1) show ?thesis by simp
    next
      case False
      with that sL(2) have "Suc j \<le> sidx" by simp
      then have "Suc j * ?P \<le> sidx * ?P" by (rule mult_le_mono1)
      also have "\<dots> \<le> m" unfolding sidx by (rule div_times_less_eq_dividend)
      finally have "Suc j * ?P \<le> m" .
      from full_before [OF this] ch [OF that] False show ?thesis by simp
    qed
    moreover have "j * ?P < Suc m" if "j < ?L" for j
      using ch [OF that] by simp
    ultimately have wf': "wf_node (Suc (Suc h)) (Suc m) (Inner (ns[sidx := ?c]))"
      using L32 eq(2) by (simp add: BRANCH_FACTOR_def del: power_Suc mult_Suc)
    from sL have ns: "ns = take sidx ns @ [ns ! sidx]"
      by (metis append_Nil2 drop_all id_take_nth_drop le_refl)
    then have "ns[sidx := ?c] = take sidx ns @ [?c]"
      by (metis length_take list_update_length min.absorb2 sL(1) less_imp_le)
    then have "concat (map ?f (ns[sidx := ?c])) = concat (map ?f (take sidx ns)) @ ?f (ns ! sidx) @ xs"
      using IH(2) by simp
    also have "\<dots> = concat (map ?f (take sidx ns @ [ns ! sidx])) @ xs"
      by simp
    also have "\<dots> = concat (map ?f ns) @ xs"
      using ns by simp
    finally have "fill_list (Inner (ns[sidx := ?c])) ?lv = fill_list node ?lv @ xs"
      by (simp only: node fill_list_Inner)
    with wf' res show ?thesis by simp
  qed
qed


subsection \<open>The vector operations on well-formed vectors\<close>

lemma wf_node_capacity: "wf_node (Suc h) m node \<Longrightarrow> m \<le> 32 * 32 ^ h"
proof -
  assume wf: "wf_node (Suc h) m node"
  then obtain ns where node: "node = Inner ns"
    by (cases node) auto
  from wf node have "length ns \<le> 32" and m: "m \<le> length ns * 32 ^ h"
    by (auto simp: BRANCH_FACTOR_def)
  then have "length ns * 32 ^ h \<le> 32 * 32 ^ h"
    by (intro mult_le_mono1)
  with m show ?thesis by linarith
qed

lemma pvector_invE:
  assumes "pvector_inv v"
  obtains h n where "shift v = SHIFT * Suc h" and "count v = 32 * n + length (tail v)"
    and "tail_offset v = 32 * n" and "length (tail v) \<le> 32" and "wf_node (Suc h) n (root v)"
    and "n \<le> 32 * 32 ^ h"
proof -
  from assms have sh: "shift v mod SHIFT = 0" "SHIFT \<le> shift v"
    and tl: "length (tail v) \<le> 32" "length (tail v) \<le> count v"
    and off: "tail_offset v mod 32 = 0"
    and wf: "wf_node (shift v div SHIFT) (tail_offset v div 32) (root v)"
    by (simp_all add: pvector_inv_def BRANCH_FACTOR_def)
  from sh(1) have "SHIFT dvd shift v" by (rule mod_0_imp_dvd)
  then obtain k where k: "shift v = SHIFT * k" by (auto simp: dvd_def)
  with sh(2) have "k \<noteq> 0" by (auto simp: SHIFT_def)
  then obtain h where h: "k = Suc h" by (cases k) auto
  from off have "32 dvd tail_offset v" by (rule mod_0_imp_dvd)
  then obtain n where n: "tail_offset v = 32 * n" by (auto simp: dvd_def)
  from k h have shd: "shift v div SHIFT = Suc h" by (simp add: SHIFT_def)
  from n have nd: "tail_offset v div 32 = n" by simp
  from wf have wf': "wf_node (Suc h) n (root v)" by (simp only: shd nd)
  from n tl(2) have "count v = 32 * n + length (tail v)" by (simp add: tail_offset_def)
  with that [OF _ this n tl(1) wf' wf_node_capacity [OF wf']] k h show ?thesis by simp
qed

lemma pvector_invI:
  assumes "shift v = SHIFT * Suc h" and "count v = 32 * n + length (tail v)"
    and "length (tail v) \<le> 32" and "wf_node (Suc h) n (root v)"
  shows "pvector_inv v"
proof -
  from assms(2) have "tail_offset v = 32 * n" by (simp add: tail_offset_def)
  moreover from assms(1) have "shift v div SHIFT = Suc h" "shift v mod SHIFT = 0" "SHIFT \<le> shift v"
    by (simp_all add: SHIFT_def)
  ultimately show ?thesis
    using assms by (simp add: pvector_inv_def BRANCH_FACTOR_def)
qed

lemma length_tolist: "pvector_inv v \<Longrightarrow> length (tolist v) = count v"
proof -
  assume "pvector_inv v"
  then obtain h n where v: "shift v = SHIFT * Suc h" "count v = 32 * n + length (tail v)"
    "wf_node (Suc h) n (root v)"
    by (rule pvector_invE)
  from length_fill_list [OF v(3)] v(1,2) show ?thesis
    by (simp add: tolist_def)
qed

lemma EMPTY_VECTOR_inv: "pvector_inv EMPTY_VECTOR"
  by (rule pvector_invI [of _ 0 0]) (simp_all add: EMPTY_VECTOR_def)

lemma tolist_EMPTY_VECTOR: "tolist EMPTY_VECTOR = []"
  by (simp add: tolist_def EMPTY_VECTOR_def SHIFT_def)

lemma create_new_root_wf:
  assumes inv: "pvector_inv v" and full: "length (tail v) = 32"
  obtains h where "snd (create_new_root v) = SHIFT * Suc h"
    and "wf_node (Suc h) (count v div 32) (fst (create_new_root v))"
    and "fill_list (fst (create_new_root v)) (snd (create_new_root v)) = tolist v"
proof -
  from inv obtain h n where v: "shift v = SHIFT * Suc h" "count v = 32 * n + length (tail v)"
    "wf_node (Suc h) n (root v)" "n \<le> 32 * 32 ^ h"
    by (rule pvector_invE)
  from v(2) full have cnt: "count v = 32 * n + 32" by simp
  then have cd: "count v div 32 = Suc n" by simp
  have cond: "drop_bit SHIFT (count v) > push_bit (shift v) (1::nat) \<longleftrightarrow> n = 32 * 32 ^ h"
  proof -
    have "drop_bit SHIFT (count v) = Suc n"
      using cd by (simp add: drop_bit_eq_div SHIFT_def)
    moreover have "push_bit (shift v) (1::nat) = 32 * 32 ^ h"
      by (simp add: push_bit_eq_mult v(1) pow_level del: mult_Suc_right)
    ultimately show ?thesis using v(4) by auto
  qed
  show ?thesis
  proof (cases "n = 32 * 32 ^ h")
    case True
    let ?np = "new_path (SHIFT * Suc h) (Leaf (tail v))"
    from True cond have res: "create_new_root v = (Inner [root v, ?np], SHIFT * Suc (Suc h))"
      by (simp add: create_new_root_def v(1))
    note np = new_path_wf [OF full, of "Suc h"]
    have "wf_node (Suc h) (min (32 ^ Suc h) (Suc n - j * 32 ^ Suc h)) ([root v, ?np] ! j)" if "j < 2" for j
    proof (cases "j = 0")
      case True
      with v(3) \<open>n = 32 * 32 ^ h\<close> show ?thesis by (simp add: min_def)
    next
      case False
      with that have j: "j = 1" by simp
      have "Suc n - 32 ^ Suc h = 1" using True by simp
      moreover have "(1::nat) \<le> 32 ^ Suc h" by simp
      ultimately have "min (32 ^ Suc h) (Suc n - 32 ^ Suc h) = 1"
        by (simp only: min.absorb2)
      with np j show ?thesis by simp
    qed
    moreover have "j * 32 ^ Suc h < Suc n" if "j < 2" for j
    proof -
      from that have "j = 0 \<or> j = 1" by auto
      with True show ?thesis by auto
    qed
    moreover from True have "Suc n \<le> 2 * 32 ^ Suc h"
      by simp
    ultimately have "wf_node (Suc (Suc h)) (Suc n) (Inner [root v, ?np])"
      by (simp add: BRANCH_FACTOR_def del: power_Suc)
    moreover have "fill_list (Inner [root v, ?np]) (SHIFT * Suc (Suc h)) = tolist v"
      using np by (simp only: fill_list_Inner) (simp add: tolist_def v(1))
    ultimately show ?thesis
      using that [of "Suc h"] by (simp add: res cd)
  next
    case False
    with cond have res: "create_new_root v = (push_tail (count v) (SHIFT * Suc h) (root v) (Leaf (tail v)), SHIFT * Suc h)"
      by (simp add: create_new_root_def v(1))
    from False v(4) have lt: "n < 32 * 32 ^ h" by simp
    have "(count v - 1) div 32 = n" using cnt by simp
    with lt have "((count v - 1) div 32) mod (32 * 32 ^ h) = n" by simp
    from push_tail_wf [OF v(3) lt full this] that [of h] show ?thesis
      by (simp add: res cd tolist_def v(1))
  qed
qed

lemma append_pvector_inv:
  assumes inv: "pvector_inv v"
  shows "pvector_inv (append_pvector v x)" and "tolist (append_pvector v x) = tolist v @ [x]"
    and "count (append_pvector v x) = Suc (count v)"
proof -
  from inv obtain h n where v: "shift v = SHIFT * Suc h" "count v = 32 * n + length (tail v)"
    "length (tail v) \<le> 32" "wf_node (Suc h) n (root v)"
    by (rule pvector_invE)
  show "count (append_pvector v x) = Suc (count v)"
    by (simp add: append_pvector_def split: prod.splits)
  show "pvector_inv (append_pvector v x)"
  proof (cases "length (tail v) < 32")
    case True
    then have res: "append_pvector v x = PVector (count v + 1) (shift v) (root v) (tail v @ [x])"
      by (simp add: append_pvector_def BRANCH_FACTOR_def)
    show ?thesis
      unfolding res using v True by (intro pvector_invI [of _ h n]) simp_all
  next
    case False
    with v(3) have full: "length (tail v) = 32" by simp
    from create_new_root_wf [OF inv full] obtain h' where
      r: "snd (create_new_root v) = SHIFT * Suc h'"
        "wf_node (Suc h') (count v div 32) (fst (create_new_root v))"
      by blast
    from full have res: "append_pvector v x =
        PVector (count v + 1) (snd (create_new_root v)) (fst (create_new_root v)) [x]"
      by (simp add: append_pvector_def BRANCH_FACTOR_def split: prod.splits)
    from v(2) full have "count v + 1 = 32 * (count v div 32) + length [x]" by simp
    then show ?thesis
      unfolding res using r by (intro pvector_invI [of _ h' "count v div 32"]) simp_all
  qed
  show "tolist (append_pvector v x) = tolist v @ [x]"
  proof (cases "length (tail v) < 32")
    case True
    then show ?thesis
      by (simp add: append_pvector_def BRANCH_FACTOR_def tolist_def)
  next
    case False
    with v(3) have full: "length (tail v) = 32" by simp
    from create_new_root_wf [OF inv full] have
      fl: "fill_list (fst (create_new_root v)) (snd (create_new_root v)) = tolist v"
      by blast
    from full have res: "append_pvector v x =
        PVector (count v + 1) (snd (create_new_root v)) (fst (create_new_root v)) [x]"
      by (simp add: append_pvector_def BRANCH_FACTOR_def split: prod.splits)
    show ?thesis
      unfolding res by (simp add: tolist_def [of "PVector _ _ _ _"] fl)
  qed
qed

text \<open>\<open>PVector.__len__\<close>.\<close>

definition len :: "'a pvector \<Rightarrow> nat" where
  "len self = count self"

lemma getitem_nonneg:
  assumes inv: "pvector_inv v" and i: "0 \<le> i" "i < int (count v)"
  shows "getitem v i = Inr (tolist v ! nat i)"
proof -
  from inv obtain h n where v: "shift v = SHIFT * Suc h" "count v = 32 * n + length (tail v)"
    "length (tail v) \<le> 32" "wf_node (Suc h) n (root v)" "n \<le> 32 * 32 ^ h"
    by (rule pvector_invE)
  define k where "k = nat i"
  from i have ik: "i = int k" and k: "k < count v" by (simp_all add: k_def)
  have lf: "length (fill_list (root v) (shift v)) = 32 * n"
    using length_fill_list [OF v(4)] by (simp only: v(1))
  have off: "count v - length (tail v) = 32 * n" using v(2) by simp
  show ?thesis
  proof (cases "32 * n \<le> k")
    case True
    with k v(2,3) have r: "k - 32 * n < length (tail v)" "k - 32 * n < 32" by simp_all
    have "k mod 32 = (k - 32 * n) mod 32"
      using True by (metis le_mod_geq mod_mult_self1_is_0 mod_add_left_eq add.commute le_add_diff_inverse2 mod_mult_self4 add_0)
    with r have km: "k mod 32 = k - 32 * n" by simp
    from True k have "node_for (count v) (shift v) (root v) (tail v) i = Inr (tail v)"
      by (simp add: node_for_def ik off)
    then have "getitem v i = list_get (tail v) (k AND BIT_MASK)"
      using i by (simp add: getitem_def ik)
    also have "\<dots> = Inr (tail v ! (k - 32 * n))"
      using r by (simp add: list_get_def and_BIT_MASK km)
    also have "tail v ! (k - 32 * n) = tolist v ! k"
      using True by (simp add: tolist_def nth_append lf)
    finally show ?thesis by (simp add: k_def)
  next
    case False
    then have lt: "k < 32 * n" by simp
    with v(5) have "k < 32 * (32 * 32 ^ h)" by simp
    then have km: "k mod (32 * 32 ^ Suc h) = k" by simp
    with lt have "k mod (32 * 32 ^ Suc h) < 32 * n" by simp
    from node_walk_wf [OF v(4) this] obtain xs where
      xs: "node_walk (root v) (shift v) k = Inr (Leaf xs)" "length xs = 32"
        "xs ! (k mod 32) = fill_list (root v) (shift v) ! k"
      by (auto simp only: v(1) km)
    from lt k have "node_for (count v) (shift v) (root v) (tail v) i = Inr xs"
      by (simp add: node_for_def ik off xs(1))
    then have "getitem v i = list_get xs (k AND BIT_MASK)"
      using i by (simp add: getitem_def ik)
    also have "\<dots> = Inr (xs ! (k mod 32))"
      using xs(2) by (simp add: list_get_def and_BIT_MASK)
    also have "xs ! (k mod 32) = tolist v ! k"
      using lt by (simp add: xs(3) tolist_def nth_append lf)
    finally show ?thesis by (simp add: k_def)
  qed
qed

lemma getitem_negative:
  "i < 0 \<Longrightarrow> 0 \<le> i + int (count v) \<Longrightarrow> getitem v i = getitem v (i + int (count v))"
  by (simp add: getitem_def)

lemma getitem_out_of_range:
  "(i < 0 \<and> i + int (count v) < 0) \<or> int (count v) \<le> i \<Longrightarrow> getitem v i = Inl IndexError"
  by (auto simp: getitem_def node_for_def Let_def)


lemma set_pvector_inside:
  assumes inv: "pvector_inv v" and i: "0 \<le> i" "i < int (count v)"
  shows "\<exists>v'. set_pvector v i x = Inr v' \<and> pvector_inv v' \<and> count v' = count v \<and>
           tolist v' = (tolist v)[nat i := x]"
proof -
  from inv obtain h n where v: "shift v = SHIFT * Suc h" "count v = 32 * n + length (tail v)"
    "length (tail v) \<le> 32" "wf_node (Suc h) n (root v)" "n \<le> 32 * 32 ^ h"
    by (rule pvector_invE)
  define k where "k = nat i"
  from i have ik: "i = int k" and k: "k < count v" by (simp_all add: k_def)
  have lf: "length (fill_list (root v) (shift v)) = 32 * n"
    using length_fill_list [OF v(4)] by (simp only: v(1))
  have off: "tail_offset v = 32 * n" using v(2) by (simp add: tail_offset_def)
  show ?thesis
  proof (cases "32 * n \<le> k")
    case True
    with k v(2,3) have r: "k - 32 * n < length (tail v)" "k - 32 * n < 32" by simp_all
    have "k mod 32 = (k - 32 * n) mod 32"
      using True by (metis le_mod_geq mod_mult_self1_is_0 mod_add_left_eq add.commute le_add_diff_inverse2 mod_mult_self4 add_0)
    with r have km: "k mod 32 = k - 32 * n" by simp
    let ?v' = "PVector (count v) (shift v) (root v) ((tail v)[k - 32 * n := x])"
    from True k r have res: "set_pvector v i x = Inr ?v'"
      by (simp add: set_pvector_def ik off list_put_def and_BIT_MASK km)
    have "pvector_inv ?v'"
      using v by (intro pvector_invI [of _ h n]) simp_all
    moreover have "tolist ?v' = (tolist v)[k := x]"
      using True by (simp add: tolist_def list_update_append lf)
    ultimately show ?thesis using res by (simp add: k_def)
  next
    case False
    then have lt: "k < 32 * n" by simp
    with v(5) have "k < 32 * (32 * 32 ^ h)" by simp
    then have km: "k mod (32 * 32 ^ Suc h) = k" by simp
    with lt have "k mod (32 * 32 ^ Suc h) < 32 * n" by simp
    from do_set_wf [OF v(4) this, of x] obtain r where
      r: "do_set (shift v) (root v) k x = Inr r" "wf_node (Suc h) n r"
        "fill_list r (shift v) = (fill_list (root v) (shift v))[k := x]"
      by (auto simp only: v(1) km)
    let ?v' = "PVector (count v) (shift v) r (tail v)"
    from lt k have res: "set_pvector v i x = Inr ?v'"
      by (simp add: set_pvector_def ik off r(1))
    have "pvector_inv ?v'"
      using v r(2) by (intro pvector_invI [of _ h n]) simp_all
    moreover have "tolist ?v' = (tolist v)[k := x]"
      using lt by (simp add: tolist_def list_update_append lf r(3))
    ultimately show ?thesis using res by (simp add: k_def)
  qed
qed

text \<open>
  On the vectors as values: \<open>append\<close> gives a vector one longer, with the same elements at
  the old indices and \<open>x\<close> at the end.
\<close>

lemma append_pvector_elements:
  assumes inv: "pvector_inv v1"
  shows "pvector_inv (append_pvector v1 x) \<and>
         len (append_pvector v1 x) = len v1 + 1 \<and>
         (\<forall>i. 0 \<le> i \<and> i < int (len v1) \<longrightarrow>
            getitem v1 i = Inr (tolist v1 ! nat i) \<and>
            getitem (append_pvector v1 x) i = getitem v1 i) \<and>
         getitem (append_pvector v1 x) (int (len v1)) = Inr x"
proof -
  let ?v2 = "append_pvector v1 x"
  note a = append_pvector_inv [OF inv, of x]
  have lt: "length (tolist v1) = count v1"
    by (rule length_tolist [OF inv])
  have "getitem v1 i = Inr (tolist v1 ! nat i) \<and> getitem ?v2 i = getitem v1 i"
    if "0 \<le> i \<and> i < int (len v1)" for i
  proof -
    from that have i: "0 \<le> i" "i < int (count v1)" "i < int (count ?v2)"
      by (simp_all add: len_def a(3))
    from getitem_nonneg [OF a(1) i(1,3)] have "getitem ?v2 i = Inr ((tolist v1 @ [x]) ! nat i)"
      by (simp only: a(2))
    also have "(tolist v1 @ [x]) ! nat i = tolist v1 ! nat i"
    proof -
      from i have "nat i < count v1" by linarith
      then show ?thesis by (simp add: nth_append lt)
    qed
    finally show ?thesis
      using getitem_nonneg [OF inv i(1,2)] by simp
  qed
  moreover have "getitem ?v2 (int (len v1)) = Inr x"
  proof -
    have "getitem ?v2 (int (count v1)) = Inr (tolist ?v2 ! nat (int (count v1)))"
      by (rule getitem_nonneg [OF a(1)]) (simp_all add: a(3))
    then show ?thesis
      by (simp add: a(2) len_def nth_append lt)
  qed
  ultimately show ?thesis
    using a by (simp add: len_def)
qed


subsection \<open>Append on a store of lists\<close>

text \<open>
  The lists of a vector are Python lists: mutable objects, held by reference and shared
  between vectors. Here the store is the sequence of the list objects allocated so far and
  the address of an object is its position. A cell of a list is an element of the vector or
  a reference to another list. The vector object has the five slots that \<open>__new__\<close> sets.
\<close>

datatype 'a cell = Elem 'a | Ref nat

type_synonym 'a store = "'a cell list list"

record pvector_obj =
  obj_count :: nat
  obj_shift :: nat
  obj_root :: nat
  obj_tail :: nat
  obj_tail_offset :: nat

text \<open>
  What the code does with lists: a list display or \<open>list(x)\<close> allocates a new object,
  \<open>ret.append(c)\<close> and \<open>ret[i] = c\<close> change the object \<open>ret\<close> in place.
\<close>

definition list_new :: "'a store \<Rightarrow> 'a cell list \<Rightarrow> 'a store \<times> nat" where
  "list_new st cells = (st @ [cells], length st)"

definition list_copy :: "'a store \<Rightarrow> nat \<Rightarrow> 'a store \<times> nat" where
  "list_copy st a = list_new st (st ! a)"

definition list_append :: "'a store \<Rightarrow> nat \<Rightarrow> 'a cell \<Rightarrow> 'a store" where
  "list_append st a c = st[a := st ! a @ [c]]"

definition list_setitem :: "'a store \<Rightarrow> nat \<Rightarrow> nat \<Rightarrow> 'a cell \<Rightarrow> error + 'a store" where
  "list_setitem st a i c =
     (if i < length (st ! a) then Inr (st[a := (st ! a)[i := c]]) else Inl IndexError)"

text \<open>\<open>PVector.__new__\<close>, with the derived slot \<open>_tail_offset\<close>.\<close>

definition PVector_new :: "'a store \<Rightarrow> nat \<Rightarrow> nat \<Rightarrow> nat \<Rightarrow> nat \<Rightarrow> pvector_obj" where
  "PVector_new st cnt shft rt tal =
     \<lparr>obj_count = cnt, obj_shift = shft, obj_root = rt, obj_tail = tal,
      obj_tail_offset = cnt - length (st ! tal)\<rparr>"

text \<open>
  \<open>_new_path\<close>, \<open>_push_tail\<close>, \<open>_create_new_root\<close> and \<open>append\<close> on the store, statement by
  statement: \<open>_push_tail\<close> copies \<open>parent\<close> first and then changes the copy. A level that is
  not a positive multiple of \<open>SHIFT\<close>, which no vector has, ends in an exception, here
  ValueError; a cell that holds an element where a list is expected gives TypeError.
\<close>

function new_path_store :: "'a store \<Rightarrow> nat \<Rightarrow> nat \<Rightarrow> 'a store \<times> nat" where
  "new_path_store st level node =
     (if level = 0 then (st, node)
      else (case new_path_store st (level - SHIFT) node of (st1, p) \<Rightarrow> list_new st1 [Ref p]))"
  by pat_completeness auto
termination
  by (relation "measure (\<lambda>(st, level, node). level)") (auto simp: SHIFT_def)

declare new_path_store.simps [simp del]

function push_tail_store ::
  "'a store \<Rightarrow> nat \<Rightarrow> nat \<Rightarrow> nat \<Rightarrow> nat \<Rightarrow> error + 'a store \<times> nat" where
  "push_tail_store st cnt level parent tail_node =
     (case list_copy st parent of
        (st1, ret) \<Rightarrow>
          if level = SHIFT then Inr (list_append st1 ret (Ref tail_node), ret)
          else if level < SHIFT then Inl ValueError
          else if length (st1 ! parent) > drop_bit level (cnt - 1) AND BIT_MASK then
            (case st1 ! parent ! (drop_bit level (cnt - 1) AND BIT_MASK) of
               Elem x \<Rightarrow> Inl TypeError
             | Ref child \<Rightarrow>
                 (case push_tail_store st1 cnt (level - SHIFT) child tail_node of
                    Inl e \<Rightarrow> Inl e
                  | Inr (st2, sub) \<Rightarrow>
                      (case list_setitem st2 ret (drop_bit level (cnt - 1) AND BIT_MASK) (Ref sub) of
                         Inl e \<Rightarrow> Inl e
                       | Inr st3 \<Rightarrow> Inr (st3, ret))))
          else (case new_path_store st1 (level - SHIFT) tail_node of
                  (st2, p) \<Rightarrow> Inr (list_append st2 ret (Ref p), ret)))"
  by pat_completeness auto
termination
  by (relation "measure (\<lambda>(st, cnt, level, parent, tail_node). level)") (auto simp: SHIFT_def)

declare push_tail_store.simps [simp del]

definition create_new_root_store :: "'a store \<Rightarrow> pvector_obj \<Rightarrow> error + 'a store \<times> nat \<times> nat" where
  "create_new_root_store st self =
     (if drop_bit SHIFT (obj_count self) > push_bit (obj_shift self) 1 then
        (case new_path_store st (obj_shift self) (obj_tail self) of
           (st1, p) \<Rightarrow>
             (case list_new st1 [Ref (obj_root self), Ref p] of
                (st2, new_root) \<Rightarrow> Inr (st2, new_root, obj_shift self + SHIFT)))
      else
        (case push_tail_store st (obj_count self) (obj_shift self) (obj_root self) (obj_tail self) of
           Inl e \<Rightarrow> Inl e
         | Inr (st1, new_root) \<Rightarrow> Inr (st1, new_root, obj_shift self)))"

definition append_store :: "'a store \<Rightarrow> pvector_obj \<Rightarrow> 'a \<Rightarrow> error + 'a store \<times> pvector_obj" where
  "append_store st self val =
     (if length (st ! obj_tail self) < BRANCH_FACTOR then
        (case list_copy st (obj_tail self) of
           (st1, new_tail) \<Rightarrow>
             Inr (list_append st1 new_tail (Elem val),
                  PVector_new (list_append st1 new_tail (Elem val))
                    (obj_count self + 1) (obj_shift self) (obj_root self) new_tail))
      else
        (case create_new_root_store st self of
           Inl e \<Rightarrow> Inl e
         | Inr (st1, new_root, new_shift) \<Rightarrow>
             (case list_new st1 [Elem val] of
                (st2, new_tail) \<Rightarrow>
                  Inr (st2, PVector_new st2 (obj_count self + 1) new_shift new_root new_tail))))"

text \<open>\<open>__len__\<close>, \<open>_node_for\<close> and \<open>__getitem__\<close> at an integer index, reading the store.\<close>

definition len_store :: "pvector_obj \<Rightarrow> nat" where
  "len_store self = obj_count self"

function walk_store :: "'a store \<Rightarrow> nat \<Rightarrow> nat \<Rightarrow> nat \<Rightarrow> error + nat" where
  "walk_store st node level i =
     (if level > 0 then
        (case list_get (st ! node) (drop_bit level i AND BIT_MASK) of
           Inl e \<Rightarrow> Inl e
         | Inr (Elem x) \<Rightarrow> Inl TypeError
         | Inr (Ref child) \<Rightarrow> walk_store st child (level - SHIFT) i)
      else Inr node)"
  by pat_completeness auto
termination
  by (relation "measure (\<lambda>(st, node, level, i). level)") (auto simp: SHIFT_def)

declare walk_store.simps [simp del]

definition node_for_store :: "'a store \<Rightarrow> pvector_obj \<Rightarrow> int \<Rightarrow> error + nat" where
  "node_for_store st self i =
     (if 0 \<le> i \<and> i < int (obj_count self) then
        (if i \<ge> int (obj_tail_offset self) then Inr (obj_tail self)
         else walk_store st (obj_root self) (obj_shift self) (nat i))
      else Inl IndexError)"

definition getitem_store :: "'a store \<Rightarrow> pvector_obj \<Rightarrow> int \<Rightarrow> error + 'a cell" where
  "getitem_store st self index =
     (let index = (if index < 0 then index + int (obj_count self) else index) in
      case node_for_store st self index of
        Inl e \<Rightarrow> Inl e
      | Inr node \<Rightarrow> list_get (st ! node) (nat index AND BIT_MASK))"

text \<open>
  \<open>repr_on A st a node\<close>: the object at address \<open>a\<close> of the store holds the trie \<open>node\<close>, and
  every object of that trie has its address in \<open>A\<close>. \<open>holds st self v\<close>: the vector object
  \<open>self\<close> stands for the vector \<open>v\<close>. \<open>extends st st'\<close>: every object of \<open>st\<close> is in \<open>st'\<close>, at
  the same address and with the same cells.
\<close>

fun repr_on :: "nat set \<Rightarrow> 'a store \<Rightarrow> nat \<Rightarrow> 'a node \<Rightarrow> bool" where
  "repr_on A st a (Leaf xs) \<longleftrightarrow> a \<in> A \<and> a < length st \<and> st ! a = map Elem xs"
| "repr_on A st a (Inner ns) \<longleftrightarrow>
     a \<in> A \<and> a < length st \<and> length (st ! a) = length ns \<and>
     (\<forall>i<length ns. \<exists>b. st ! a ! i = Ref b \<and> repr_on A st b (ns ! i))"

definition holds :: "'a store \<Rightarrow> pvector_obj \<Rightarrow> 'a pvector \<Rightarrow> bool" where
  "holds st self v \<longleftrightarrow>
     obj_count self = count v \<and> obj_shift self = shift v \<and>
     obj_tail_offset self = tail_offset v \<and>
     repr_on UNIV st (obj_root self) (root v) \<and> repr_on UNIV st (obj_tail self) (Leaf (tail v))"

definition extends :: "'a store \<Rightarrow> 'a store \<Rightarrow> bool" where
  "extends st st' \<longleftrightarrow> length st \<le> length st' \<and> (\<forall>a<length st. st' ! a = st ! a)"

lemma extends_refl: "extends st st"
  by (simp add: extends_def)

lemma extends_trans: "extends st st1 \<Longrightarrow> extends st1 st2 \<Longrightarrow> extends st st2"
  by (auto simp: extends_def)

lemma extends_append: "extends st (st @ new)"
  by (simp add: extends_def nth_append)

lemma repr_on_mono: "repr_on A st a node \<Longrightarrow> A \<subseteq> B \<Longrightarrow> repr_on B st a node"
proof (induction A st a node rule: repr_on.induct)
  case (1 A st a xs)
  then show ?case by auto
next
  case (2 A st a ns)
  from "2.prems"(1) have a: "a \<in> A" "a < length st" "length (st ! a) = length ns"
    and ch: "\<And>i. i < length ns \<Longrightarrow> \<exists>b. st ! a ! i = Ref b \<and> repr_on A st b (ns ! i)"
    by auto
  have "\<exists>b. st ! a ! i = Ref b \<and> repr_on B st b (ns ! i)" if "i < length ns" for i
  proof -
    from ch [OF that] obtain b where b: "st ! a ! i = Ref b" "repr_on A st b (ns ! i)" by blast
    from "2.IH" [OF that b(2) "2.prems"(2)] b(1) show ?thesis by simp
  qed
  with a "2.prems"(2) show ?case by auto
qed

lemma repr_on_frame:
  "repr_on A st a node \<Longrightarrow> \<forall>b\<in>A. b < length st \<longrightarrow> b < length st' \<and> st' ! b = st ! b \<Longrightarrow>
   repr_on A st' a node"
proof (induction A st a node rule: repr_on.induct)
  case (1 A st a xs)
  then show ?case by auto
next
  case (2 A st a ns)
  from "2.prems"(1) have a: "a \<in> A" "a < length st" "length (st ! a) = length ns"
    and ch: "\<And>i. i < length ns \<Longrightarrow> \<exists>b. st ! a ! i = Ref b \<and> repr_on A st b (ns ! i)"
    by auto
  from a "2.prems"(2) have a': "a < length st'" "st' ! a = st ! a" by auto
  have "\<exists>b. st' ! a ! i = Ref b \<and> repr_on A st' b (ns ! i)" if "i < length ns" for i
  proof -
    from ch [OF that] obtain b where b: "st ! a ! i = Ref b" "repr_on A st b (ns ! i)" by blast
    from "2.IH" [OF that b(2) "2.prems"(2)] b(1) a'(2) show ?thesis by simp
  qed
  with a a' show ?case by simp
qed

lemma repr_on_bounded: "repr_on A st a node \<Longrightarrow> repr_on (A \<inter> {..<length st}) st a node"
proof (induction A st a node rule: repr_on.induct)
  case (1 A st a xs)
  then show ?case by auto
next
  case (2 A st a ns)
  from "2.prems"(1) have a: "a \<in> A" "a < length st" "length (st ! a) = length ns"
    and ch: "\<And>i. i < length ns \<Longrightarrow> \<exists>b. st ! a ! i = Ref b \<and> repr_on A st b (ns ! i)"
    by auto
  have "\<exists>b. st ! a ! i = Ref b \<and> repr_on (A \<inter> {..<length st}) st b (ns ! i)"
    if "i < length ns" for i
  proof -
    from ch [OF that] obtain b where b: "st ! a ! i = Ref b" "repr_on A st b (ns ! i)" by blast
    from "2.IH" [OF that b(2)] b(1) show ?thesis by simp
  qed
  with a show ?case by auto
qed

lemma repr_on_extends:
  assumes "repr_on A st a node" and "extends st st'"
  shows "repr_on A st' a node"
  using assms(1)
proof (rule repr_on_frame)
  from assms(2) show "\<forall>b\<in>A. b < length st \<longrightarrow> b < length st' \<and> st' ! b = st ! b"
    by (auto simp: extends_def)
qed


lemma repr_on_update:
  assumes "repr_on A st a node" and "ret \<notin> A"
  shows "repr_on A (st[ret := cs]) a node"
  using assms(1)
proof (rule repr_on_frame)
  show "\<forall>b\<in>A. b < length st \<longrightarrow> b < length (st[ret := cs]) \<and> st[ret := cs] ! b = st ! b"
  proof (intro ballI impI)
    fix b assume "b \<in> A" "b < length st"
    with assms(2) have "b \<noteq> ret" by auto
    with \<open>b < length st\<close> show "b < length (st[ret := cs]) \<and> st[ret := cs] ! b = st ! b"
      by simp
  qed
qed

lemma extends_update:
  assumes "extends st st2" and "length st \<le> ret"
  shows "extends st (st2[ret := cs])"
  using assms by (auto simp: extends_def)

lemma repr_on_InnerI:
  assumes "a \<in> A" and "a < length st" and "st ! a = map Ref bs" and "length bs = length ns"
    and "\<And>i. i < length ns \<Longrightarrow> repr_on A st (bs ! i) (ns ! i)"
  shows "repr_on A st a (Inner ns)"
  using assms by simp

lemma repr_on_InnerE:
  assumes "repr_on A st a (Inner ns)"
  shows "\<exists>bs. a \<in> A \<and> a < length st \<and> st ! a = map Ref bs \<and> length bs = length ns \<and>
           (\<forall>i<length ns. repr_on A st (bs ! i) (ns ! i))"
proof -
  from assms have a: "a \<in> A" "a < length st" "length (st ! a) = length ns"
    and ch: "\<And>i. i < length ns \<Longrightarrow> \<exists>b. st ! a ! i = Ref b \<and> repr_on A st b (ns ! i)"
    by auto
  define bs where "bs = map (\<lambda>c. case c of Ref b \<Rightarrow> b | Elem x \<Rightarrow> 0) (st ! a)"
  have len: "length bs = length ns" by (simp add: bs_def a(3))
  have cell: "st ! a ! i = Ref (bs ! i) \<and> repr_on A st (bs ! i) (ns ! i)" if "i < length ns" for i
  proof -
    from ch [OF that] obtain b where b: "st ! a ! i = Ref b" "repr_on A st b (ns ! i)" by blast
    from that a(3) have "bs ! i = b" by (simp add: bs_def b(1))
    with b show ?thesis by simp
  qed
  have "st ! a = map Ref bs"
    by (rule nth_equalityI) (simp_all add: len a(3) cell)
  with a len cell show ?thesis by (intro exI [of _ bs]) simp
qed

lemma new_path_store_ok:
  assumes "repr_on A st node nd"
  shows "\<exists>st' p. new_path_store st level node = (st', p) \<and> extends st st' \<and>
           repr_on (A \<union> {length st..<length st'}) st' p (new_path level nd)"
proof (induction level rule: less_induct)
  case (less level)
  show ?case
  proof (cases "level = 0")
    case True
    from assms have "repr_on (A \<union> {length st..<length st}) st node nd"
        by (rule repr_on_mono) simp
    with True show ?thesis
      by (simp add: new_path_store.simps [of st 0] new_path.simps [of 0] extends_refl)
  next
    case False
    then have "level - SHIFT < level" by (simp add: SHIFT_def)
    from less.IH [OF this] obtain st1 p1 where
      r: "new_path_store st (level - SHIFT) node = (st1, p1)" "extends st st1"
        "repr_on (A \<union> {length st..<length st1}) st1 p1 (new_path (level - SHIFT) nd)"
      by blast
    let ?st' = "st1 @ [[Ref p1]]"
    let ?B = "A \<union> {length st..<length ?st'}"
    have res: "new_path_store st level node = (?st', length st1)"
      using False by (simp add: new_path_store.simps [of st level] r(1) list_new_def)
    have pure: "new_path level nd = Inner [new_path (level - SHIFT) nd]"
      using False by (simp add: new_path.simps [of level])
    have ext: "extends st ?st'"
      by (rule extends_trans [OF r(2) extends_append])
    from r(2) have le: "length st \<le> length st1" by (simp add: extends_def)
    have "repr_on (A \<union> {length st..<length st1}) ?st' p1 (new_path (level - SHIFT) nd)"
      by (rule repr_on_extends [OF r(3) extends_append])
    then have "repr_on ?B ?st' p1 (new_path (level - SHIFT) nd)"
      by (rule repr_on_mono) auto
    then have "repr_on ?B ?st' (length st1) (Inner [new_path (level - SHIFT) nd])"
      using le by (intro repr_on_InnerI [of _ _ _ "[p1]"]) simp_all
    with res ext pure show ?thesis by simp
  qed
qed

lemma push_tail_store_ok:
  assumes "wf_node (Suc h) m pnode" and "repr_on A st parent pnode"
    and "repr_on A st tail_node tnode" and "A \<subseteq> {..<length st}"
  shows "\<exists>st' r. push_tail_store st cnt (SHIFT * Suc h) parent tail_node = Inr (st', r) \<and>
           extends st st' \<and>
           repr_on (A \<union> {length st..<length st'}) st' r (push_tail cnt (SHIFT * Suc h) pnode tnode)"
  using assms
proof (induction h arbitrary: m pnode parent st)
  case 0
  from "0.prems"(1) obtain ns where pnode: "pnode = Inner ns"
    by (cases pnode) auto
  from repr_on_InnerE [OF "0.prems"(2) [unfolded pnode]] obtain bs where
    p: "parent \<in> A" "parent < length st" "st ! parent = map Ref bs" "length bs = length ns"
      "\<And>i. i < length ns \<Longrightarrow> repr_on A st (bs ! i) (ns ! i)"
    by blast
  let ?st' = "st @ [map Ref (bs @ [tail_node])]"
  let ?B = "A \<union> {length st..<length ?st'}"
  have res: "push_tail_store st cnt (SHIFT * Suc 0) parent tail_node = Inr (?st', length st)"
    by (simp add: push_tail_store.simps [of st cnt SHIFT] list_copy_def list_new_def
        list_append_def p(3))
  have pure: "push_tail cnt (SHIFT * Suc 0) pnode tnode = Inner (ns @ [tnode])"
    by (simp add: pnode)
  have ext: "extends st ?st'" by (rule extends_append)
  have up: "repr_on ?B ?st' a nd" if "repr_on A st a nd" for a nd
    by (rule repr_on_mono [OF repr_on_extends [OF that ext]]) auto
  have "repr_on ?B ?st' (length st) (Inner (ns @ [tnode]))"
  proof (rule repr_on_InnerI [of _ _ _ "bs @ [tail_node]"])
    fix i assume "i < length (ns @ [tnode])"
    then consider "i < length ns" | "i = length ns" by fastforce
    then show "repr_on ?B ?st' ((bs @ [tail_node]) ! i) ((ns @ [tnode]) ! i)"
    proof cases
      case 1
      with up [OF p(5) [OF 1]] p(4) show ?thesis by (simp add: nth_append)
    next
      case 2
      with up [OF "0.prems"(3)] p(4) show ?thesis by (simp add: nth_append)
    qed
  qed (simp_all add: p(4))
  with res ext pure show ?case by simp
next
  case (Suc h)
  from Suc.prems(1) obtain ns where pnode: "pnode = Inner ns"
    by (cases pnode) auto
  from repr_on_InnerE [OF Suc.prems(2) [unfolded pnode]] obtain bs where
    p: "parent \<in> A" "parent < length st" "st ! parent = map Ref bs" "length bs = length ns"
      "\<And>i. i < length ns \<Longrightarrow> repr_on A st (bs ! i) (ns ! i)"
    by blast
  let ?level = "SHIFT * Suc (Suc h)"
  let ?sub = "drop_bit ?level (cnt - 1) AND BIT_MASK"
  let ?st1 = "st @ [map Ref bs]"
  let ?ret = "length st"
  have lv: "?level \<noteq> SHIFT" "\<not> ?level < SHIFT" "?level - SHIFT = SHIFT * Suc h"
    by (simp_all add: SHIFT_def)
  have ext1: "extends st ?st1" by (rule extends_append)
  have copy: "list_copy st parent = (?st1, ?ret)"
    by (simp add: list_copy_def list_new_def p(3))
  have par1: "?st1 ! parent = map Ref bs"
    using p(2,3) by (simp add: nth_append)
  from Suc.prems(4) have A1: "A \<subseteq> {..<length ?st1}" by auto
  from Suc.prems(4) have retA: "?ret \<notin> A" by auto
  show ?case
  proof (cases "?sub < length ns")
    case True
    from Suc.prems(1) True obtain m' where wfc: "wf_node (Suc h) m' (ns ! ?sub)"
      by (auto simp: pnode)
    have c1: "repr_on A ?st1 (bs ! ?sub) (ns ! ?sub)"
      by (rule repr_on_extends [OF p(5) [OF True] ext1])
    have t1: "repr_on A ?st1 tail_node tnode"
      by (rule repr_on_extends [OF Suc.prems(3) ext1])
    from Suc.IH [OF wfc c1 t1 A1] obtain st2 r where
      r: "push_tail_store ?st1 cnt (SHIFT * Suc h) (bs ! ?sub) tail_node = Inr (st2, r)"
        "extends ?st1 st2"
        "repr_on (A \<union> {length ?st1..<length st2}) st2 r (push_tail cnt (SHIFT * Suc h) (ns ! ?sub) tnode)"
      by blast
    from r(2) have ret2: "st2 ! ?ret = map Ref bs" and len2: "length ?st1 \<le> length st2"
      by (simp_all add: extends_def)
    let ?st3 = "st2[?ret := map Ref (bs[?sub := r])]"
    let ?B = "A \<union> {length st..<length ?st3}"
    have set: "list_setitem st2 ?ret ?sub (Ref r) = Inr ?st3"
      using True by (simp add: list_setitem_def ret2 p(4) map_update)
    have res: "push_tail_store st cnt ?level parent tail_node = Inr (?st3, ?ret)"
      using True
      by (simp add: push_tail_store.simps [of st cnt ?level] copy lv par1 p(4) r(1) set
          del: mult_Suc_right One_nat_def)
    have pure: "push_tail cnt ?level pnode tnode =
        Inner (ns[?sub := push_tail cnt (SHIFT * Suc h) (ns ! ?sub) tnode])"
      using True by (simp add: pnode lv del: mult_Suc_right One_nat_def)
    have ext: "extends st ?st3"
      by (rule extends_update [OF extends_trans [OF ext1 r(2)]]) simp
    have old: "repr_on ?B ?st3 a nd" if "repr_on A st a nd" for a nd
      by (rule repr_on_mono [OF repr_on_extends [OF that ext]]) auto
    have "?ret \<notin> A \<union> {length ?st1..<length st2}"
      using retA by simp
    from repr_on_update [OF r(3) this]
    have new: "repr_on ?B ?st3 r (push_tail cnt (SHIFT * Suc h) (ns ! ?sub) tnode)"
      by (rule repr_on_mono) auto
    have "repr_on ?B ?st3 ?ret (Inner (ns[?sub := push_tail cnt (SHIFT * Suc h) (ns ! ?sub) tnode]))"
    proof (rule repr_on_InnerI [of _ _ _ "bs[?sub := r]"])
      fix i assume "i < length (ns[?sub := push_tail cnt (SHIFT * Suc h) (ns ! ?sub) tnode])"
      then have i: "i < length ns" by simp
      show "repr_on ?B ?st3 (bs[?sub := r] ! i)
          (ns[?sub := push_tail cnt (SHIFT * Suc h) (ns ! ?sub) tnode] ! i)"
      proof (cases "i = ?sub")
        case True
        with i new p(4) show ?thesis by simp
      next
        case False
        with old [OF p(5) [OF i]] show ?thesis by simp
      qed
    next
      from len2 show "?ret < length ?st3" by simp
      from len2 show "?st3 ! ?ret = map Ref (bs[?sub := r])" by simp
      from len2 show "?ret \<in> ?B" by simp
    qed (simp add: p(4))
    then have "repr_on ?B ?st3 ?ret (push_tail cnt ?level pnode tnode)"
      by (simp only: pure)
    with res ext show ?thesis by blast
  next
    case False
    have t1: "repr_on A ?st1 tail_node tnode"
      by (rule repr_on_extends [OF Suc.prems(3) ext1])
    from new_path_store_ok [OF t1, of "SHIFT * Suc h"] obtain st2 q where
      q: "new_path_store ?st1 (SHIFT * Suc h) tail_node = (st2, q)" "extends ?st1 st2"
        "repr_on (A \<union> {length ?st1..<length st2}) st2 q (new_path (SHIFT * Suc h) tnode)"
      by blast
    from q(2) have ret2: "st2 ! ?ret = map Ref bs" and len2: "length ?st1 \<le> length st2"
      by (simp_all add: extends_def)
    let ?st3 = "st2[?ret := map Ref (bs @ [q])]"
    let ?B = "A \<union> {length st..<length ?st3}"
    have res: "push_tail_store st cnt ?level parent tail_node = Inr (?st3, ?ret)"
      using False
      by (simp add: push_tail_store.simps [of st cnt ?level] copy lv par1 p(4) q(1)
          list_append_def ret2 del: mult_Suc_right One_nat_def)
    have pure: "push_tail cnt ?level pnode tnode = Inner (ns @ [new_path (SHIFT * Suc h) tnode])"
      using False by (simp add: pnode lv del: mult_Suc_right One_nat_def)
    have ext: "extends st ?st3"
      by (rule extends_update [OF extends_trans [OF ext1 q(2)]]) simp
    have old: "repr_on ?B ?st3 a nd" if "repr_on A st a nd" for a nd
      by (rule repr_on_mono [OF repr_on_extends [OF that ext]]) auto
    have "?ret \<notin> A \<union> {length ?st1..<length st2}"
      using retA by simp
    from repr_on_update [OF q(3) this]
    have new: "repr_on ?B ?st3 q (new_path (SHIFT * Suc h) tnode)"
      by (rule repr_on_mono) auto
    have "repr_on ?B ?st3 ?ret (Inner (ns @ [new_path (SHIFT * Suc h) tnode]))"
    proof (rule repr_on_InnerI [of _ _ _ "bs @ [q]"])
      fix i assume "i < length (ns @ [new_path (SHIFT * Suc h) tnode])"
      then consider "i < length ns" | "i = length ns" by fastforce
      then show "repr_on ?B ?st3 ((bs @ [q]) ! i) ((ns @ [new_path (SHIFT * Suc h) tnode]) ! i)"
      proof cases
        case 1
        with old [OF p(5) [OF 1]] p(4) show ?thesis by (simp add: nth_append)
      next
        case 2
        with new p(4) show ?thesis by (simp add: nth_append)
      qed
    next
      from len2 show "?ret < length ?st3" by simp
      from len2 show "?st3 ! ?ret = map Ref (bs @ [q])" by simp
      from len2 show "?ret \<in> ?B" by simp
    qed (simp add: p(4))
    then have "repr_on ?B ?st3 ?ret (push_tail cnt ?level pnode tnode)"
      by (simp only: pure)
    with res ext show ?thesis by blast
  qed
qed


lemma walk_store_ok:
  "repr_on A st a node \<Longrightarrow> node_walk node level i = Inr nd \<Longrightarrow>
   \<exists>b. walk_store st a level i = Inr b \<and> repr_on A st b nd"
proof (induction node level i arbitrary: a rule: node_walk.induct)
  case (1 ns level i)
  show ?case
  proof (cases "level > 0")
    case True
    let ?idx = "drop_bit level i AND BIT_MASK"
    from "1.prems"(2) True have idx: "?idx < length ns"
      and w: "node_walk (ns ! ?idx) (level - SHIFT) i = Inr nd"
      by (simp_all split: if_splits)
    from repr_on_InnerE [OF "1.prems"(1)] obtain bs where
      p: "st ! a = map Ref bs" "length bs = length ns"
        "\<And>j. j < length ns \<Longrightarrow> repr_on A st (bs ! j) (ns ! j)"
      by blast
    from "1.IH" [OF True idx p(3) [OF idx] w] obtain b where
      b: "walk_store st (bs ! ?idx) (level - SHIFT) i = Inr b" "repr_on A st b nd"
      by blast
    have "walk_store st a level i = walk_store st (bs ! ?idx) (level - SHIFT) i"
      using True idx by (simp add: walk_store.simps [of st a level] list_get_def p(1,2))
    with b show ?thesis by simp
  next
    case False
    with "1.prems" show ?thesis
      by (auto simp: walk_store.simps [of st a 0])
  qed
next
  case (2 xs level i)
  then show ?case
    by (auto simp: walk_store.simps [of st a 0] split: if_splits)
qed

lemma list_get_map: "list_get xs k = Inr x \<Longrightarrow> list_get (map f xs) k = Inr (f x)"
  by (auto simp: list_get_def split: if_splits)

lemma getitem_store_ok:
  assumes h: "holds st self v" and g: "getitem v i = Inr x"
  shows "getitem_store st self i = Inr (Elem x)"
proof -
  define j where "j = (if i < 0 then i + int (count v) else i)"
  from h have f: "obj_count self = count v" "obj_shift self = shift v"
    "obj_tail_offset self = tail_offset v"
    and rt: "repr_on UNIV st (obj_root self) (root v)"
    and tl: "st ! obj_tail self = map Elem (tail v)"
    by (simp_all add: holds_def)
  from g obtain nd where nd: "node_for (count v) (shift v) (root v) (tail v) j = Inr nd"
    and x: "list_get nd (nat j AND BIT_MASK) = Inr x"
    by (auto simp: getitem_def j_def Let_def split: sum.splits)
  from nd have range: "0 \<le> j" "j < int (count v)"
    by (auto simp: node_for_def split: if_splits)
  define in_tail where "in_tail \<longleftrightarrow> j \<ge> int (count v - length (tail v))"
  have pure: "node_for (count v) (shift v) (root v) (tail v) j =
      (if in_tail then Inr (tail v)
       else (case node_walk (root v) (shift v) (nat j) of
               Inl e \<Rightarrow> Inl e
             | Inr (Leaf xs) \<Rightarrow> Inr xs
             | Inr (Inner ns) \<Rightarrow> Inl TypeError))"
    unfolding node_for_def in_tail_def using range by (simp only: simp_thms if_True)
  have store: "node_for_store st self j =
      (if in_tail then Inr (obj_tail self)
       else walk_store st (obj_root self) (shift v) (nat j))"
    unfolding node_for_store_def in_tail_def f tail_offset_def using range
    by (simp only: simp_thms if_True)
  have "\<exists>a. node_for_store st self j = Inr a \<and> st ! a = map Elem nd"
  proof (cases in_tail)
    case True
    with nd have "nd = tail v" by (simp add: pure)
    with True tl show ?thesis
      by (simp add: store)
  next
    case False
    with nd obtain xs where w: "node_walk (root v) (shift v) (nat j) = Inr (Leaf xs)"
      and xs: "nd = xs"
      by (auto simp: pure split: sum.splits node.splits)
    from walk_store_ok [OF rt w] obtain b where
      b: "walk_store st (obj_root self) (shift v) (nat j) = Inr b" "repr_on UNIV st b (Leaf xs)"
      by blast
    with False xs show ?thesis
      by (simp add: store)
  qed
  then obtain a where a: "node_for_store st self j = Inr a" "st ! a = map Elem nd" by blast
  have "getitem_store st self i =
      (case node_for_store st self j of
         Inl e \<Rightarrow> Inl e
       | Inr node \<Rightarrow> list_get (st ! node) (nat j AND BIT_MASK))"
    unfolding getitem_store_def j_def f Let_def by (rule refl)
  with list_get_map [OF x, of Elem] a show ?thesis
    by simp
qed

lemma getitem_store_out_of_range:
  assumes "holds st self v"
    and "(i < 0 \<and> i + int (count v) < 0) \<or> int (count v) \<le> i"
  shows "getitem_store st self i = Inl IndexError"
  using assms by (auto simp: getitem_store_def node_for_store_def holds_def Let_def)

lemma getitem_store_holds:
  assumes h: "holds st self v" and inv: "pvector_inv v"
  shows "getitem_store st self i = map_sum id Elem (getitem v i)"
proof -
  consider "0 \<le> i" "i < int (count v)" | "i < 0" "0 \<le> i + int (count v)"
    | "(i < 0 \<and> i + int (count v) < 0) \<or> int (count v) \<le> i"
    by linarith
  then show ?thesis
  proof cases
    case 1
    from getitem_nonneg [OF inv 1] have g: "getitem v i = Inr (tolist v ! nat i)" .
    from getitem_store_ok [OF h g] g show ?thesis by simp
  next
    case 2
    then have "i + int (count v) < int (count v)" by simp
    from getitem_nonneg [OF inv 2(2) this] getitem_negative [OF 2]
    have g: "getitem v i = Inr (tolist v ! nat (i + int (count v)))" by simp
    from getitem_store_ok [OF h g] g show ?thesis by simp
  next
    case 3
    from getitem_store_out_of_range [OF h 3] getitem_out_of_range [OF 3] show ?thesis
      by simp
  qed
qed

lemma holds_extends:
  assumes "holds st self v" and "extends st st'"
  shows "holds st' self v"
proof -
  from assms(1) have f: "obj_count self = count v" "obj_shift self = shift v"
    "obj_tail_offset self = tail_offset v"
    and rt: "repr_on UNIV st (obj_root self) (root v)"
    and tl: "repr_on UNIV st (obj_tail self) (Leaf (tail v))"
    by (simp_all add: holds_def)
  from repr_on_extends [OF rt assms(2)] repr_on_extends [OF tl assms(2)] f show ?thesis
    by (simp add: holds_def)
qed

lemma create_new_root_store_ok:
  assumes h: "holds st self v" and inv: "pvector_inv v"
  shows "\<exists>st1 r. create_new_root_store st self = Inr (st1, r, snd (create_new_root v)) \<and>
           extends st st1 \<and> repr_on UNIV st1 r (fst (create_new_root v))"
proof -
  from h have f: "obj_count self = count v" "obj_shift self = shift v"
    and rt: "repr_on UNIV st (obj_root self) (root v)"
    and tl: "repr_on UNIV st (obj_tail self) (Leaf (tail v))"
    by (simp_all add: holds_def)
  show ?thesis
  proof (cases "drop_bit SHIFT (count v) > push_bit (shift v) (1::nat)")
    case True
    from new_path_store_ok [OF tl, of "shift v"] obtain st1 p where
      p: "new_path_store st (shift v) (obj_tail self) = (st1, p)" "extends st st1"
        "repr_on (UNIV \<union> {length st..<length st1}) st1 p (new_path (shift v) (Leaf (tail v)))"
      by blast
    let ?st2 = "st1 @ [[Ref (obj_root self), Ref p]]"
    have res: "create_new_root_store st self = Inr (?st2, length st1, shift v + SHIFT)"
      using True by (simp add: create_new_root_store_def f p(1) list_new_def)
    have pure: "create_new_root v =
        (Inner [root v, new_path (shift v) (Leaf (tail v))], shift v + SHIFT)"
      using True by (simp add: create_new_root_def)
    have ext: "extends st ?st2"
      by (rule extends_trans [OF p(2) extends_append])
    have r1: "repr_on UNIV ?st2 (obj_root self) (root v)"
      by (rule repr_on_extends [OF rt ext])
    from p(3) have "repr_on UNIV st1 p (new_path (shift v) (Leaf (tail v)))" by simp
    then have r2: "repr_on UNIV ?st2 p (new_path (shift v) (Leaf (tail v)))"
      by (rule repr_on_extends) (rule extends_append)
    have "repr_on UNIV ?st2 (length st1) (Inner [root v, new_path (shift v) (Leaf (tail v))])"
    proof (rule repr_on_InnerI [of _ _ _ "[obj_root self, p]"])
      fix i assume "i < length [root v, new_path (shift v) (Leaf (tail v))]"
      then consider "i = 0" | "i = 1" by fastforce
      then show "repr_on UNIV ?st2 ([obj_root self, p] ! i)
          ([root v, new_path (shift v) (Leaf (tail v))] ! i)"
        using r1 r2 by cases simp_all
    qed simp_all
    with res ext show ?thesis by (simp add: pure)
  next
    case False
    from inv obtain hh n where v: "shift v = SHIFT * Suc hh" "wf_node (Suc hh) n (root v)"
      by (rule pvector_invE)
    let ?A = "UNIV \<inter> {..<length st}"
    from push_tail_store_ok [OF v(2) repr_on_bounded [OF rt] repr_on_bounded [OF tl], of "count v"]
    obtain st1 r where
      r: "push_tail_store st (count v) (SHIFT * Suc hh) (obj_root self) (obj_tail self) = Inr (st1, r)"
        "extends st st1"
        "repr_on (?A \<union> {length st..<length st1}) st1 r
           (push_tail (count v) (SHIFT * Suc hh) (root v) (Leaf (tail v)))"
      by auto
    have res: "create_new_root_store st self = Inr (st1, r, shift v)"
      using False by (simp add: create_new_root_store_def f r(1) [folded v(1)])
    have pure: "create_new_root v = (push_tail (count v) (shift v) (root v) (Leaf (tail v)), shift v)"
      using False by (simp add: create_new_root_def)
    from r(3) have "repr_on UNIV st1 r (push_tail (count v) (shift v) (root v) (Leaf (tail v)))"
      unfolding v(1) by (rule repr_on_mono) simp
    with res r(2) show ?thesis by (simp add: pure)
  qed
qed

lemma append_store_ok:
  assumes h: "holds st self v" and inv: "pvector_inv v"
  shows "\<exists>st' self'. append_store st self x = Inr (st', self') \<and> extends st st' \<and>
           holds st' self' (append_pvector v x)"
proof -
  from h have f: "obj_count self = count v" "obj_shift self = shift v"
    and rt: "repr_on UNIV st (obj_root self) (root v)"
    and tl: "obj_tail self < length st" "st ! obj_tail self = map Elem (tail v)"
    by (simp_all add: holds_def)
  show ?thesis
  proof (cases "length (tail v) < BRANCH_FACTOR")
    case True
    let ?st2 = "st @ [map Elem (tail v @ [x])]"
    let ?self' = "PVector_new ?st2 (count v + 1) (shift v) (obj_root self) (length st)"
    have res: "append_store st self x = Inr (?st2, ?self')"
      using True by (simp add: append_store_def tl(2) f list_copy_def list_new_def list_append_def)
    have pure: "append_pvector v x = PVector (count v + 1) (shift v) (root v) (tail v @ [x])"
      using True by (simp add: append_pvector_def)
    have ext: "extends st ?st2" by (rule extends_append)
    have "holds ?st2 ?self' (append_pvector v x)"
      using repr_on_extends [OF rt ext]
      by (simp add: holds_def pure PVector_new_def tail_offset_def)
    with res ext show ?thesis by blast
  next
    case False
    from create_new_root_store_ok [OF h inv] obtain st1 r where
      r: "create_new_root_store st self = Inr (st1, r, snd (create_new_root v))"
        "extends st st1" "repr_on UNIV st1 r (fst (create_new_root v))"
      by blast
    let ?st2 = "st1 @ [[Elem x]]"
    let ?self' = "PVector_new ?st2 (count v + 1) (snd (create_new_root v)) r (length st1)"
    have res: "append_store st self x = Inr (?st2, ?self')"
      using False by (simp add: append_store_def tl(2) f r(1) list_new_def)
    have pure: "append_pvector v x =
        PVector (count v + 1) (snd (create_new_root v)) (fst (create_new_root v)) [x]"
      using False by (simp add: append_pvector_def split: prod.splits)
    have ext: "extends st ?st2"
      by (rule extends_trans [OF r(2) extends_append])
    have "holds ?st2 ?self' (append_pvector v x)"
      using repr_on_extends [OF r(3) extends_append [of st1 "[[Elem x]]"]]
      by (simp add: holds_def pure PVector_new_def tail_offset_def)
    with res ext show ?thesis by blast
  qed
qed


text \<open>
  C2. Let the vector object \<open>v1\<close> hold a vector in the store. Then \<open>v2 = v1.append(x)\<close>
  returns, \<open>len(v2) = len(v1) + 1\<close>, \<open>v2[i] = v1[i]\<close> for every index \<open>i < len(v1)\<close> (both
  reads succeed, and give the element at \<open>i\<close>), and \<open>v2[len(v1)] = x\<close>. \<open>v1\<close> is unchanged:
  every list that was in the store before the call has the cells it had, so \<open>v1\<close> holds the
  same vector and \<open>v1[i]\<close> gives after the call what it gave before, at every index \<open>i\<close>.
\<close>

theorem append_shares_prefix:
  assumes h: "holds st v1 pv" and inv: "pvector_inv pv"
  shows "\<exists>st' v2. append_store st v1 x = Inr (st', v2) \<and>
           holds st' v2 (append_pvector pv x) \<and> pvector_inv (append_pvector pv x) \<and>
           len_store v2 = len_store v1 + 1 \<and>
           (\<forall>i. 0 \<le> i \<and> i < int (len_store v1) \<longrightarrow>
              getitem_store st v1 i = Inr (Elem (tolist pv ! nat i)) \<and>
              getitem_store st' v2 i = getitem_store st v1 i) \<and>
           getitem_store st' v2 (int (len_store v1)) = Inr (Elem x) \<and>
           extends st st' \<and> holds st' v1 pv \<and>
           (\<forall>i. getitem_store st' v1 i = getitem_store st v1 i)"
proof -
  from append_store_ok [OF h inv, of x] obtain st' v2 where
    r: "append_store st v1 x = Inr (st', v2)" "extends st st'" "holds st' v2 (append_pvector pv x)"
    by blast
  note a = append_pvector_inv [OF inv, of x]
  note e = append_pvector_elements [OF inv, of x]
  have h1: "holds st' v1 pv"
    by (rule holds_extends [OF h r(2)])
  from h have c1: "len_store v1 = len pv" by (simp add: holds_def len_store_def len_def)
  from r(3) have c2: "len_store v2 = len (append_pvector pv x)"
    by (simp add: holds_def len_store_def len_def)
  have g1: "getitem_store st v1 i = map_sum id Elem (getitem pv i)" for i
    by (rule getitem_store_holds [OF h inv])
  have g1': "getitem_store st' v1 i = map_sum id Elem (getitem pv i)" for i
    by (rule getitem_store_holds [OF h1 inv])
  have g2: "getitem_store st' v2 i = map_sum id Elem (getitem (append_pvector pv x) i)" for i
    by (rule getitem_store_holds [OF r(3) a(1)])
  have "getitem_store st v1 i = Inr (Elem (tolist pv ! nat i)) \<and>
      getitem_store st' v2 i = getitem_store st v1 i"
    if "0 \<le> i \<and> i < int (len_store v1)" for i
    using e that by (simp add: g1 g2 c1)
  moreover have "getitem_store st' v2 (int (len_store v1)) = Inr (Elem x)"
    using e by (simp add: g2 c1)
  moreover have "len_store v2 = len_store v1 + 1"
    using e by (simp add: c1 c2)
  ultimately show ?thesis
    using r a(1) h1 g1 g1' by (intro exI [of _ st'] exI [of _ v2]) simp
qed

text \<open>
  A vector of 32 elements, all of them in the tail, so that \<open>append\<close> pushes the tail into
  the trie: the root is the list at address 0 and the tail the list at address 1.
\<close>

definition full_tail_store :: "nat store" where
  "full_tail_store = [[], map Elem [0..<32]]"

definition full_tail_obj :: pvector_obj where
  "full_tail_obj = PVector_new full_tail_store 32 5 0 1"

definition full_tail_vector :: "nat pvector" where
  "full_tail_vector = PVector 32 5 (Inner []) [0..<32]"

theorem append_shares_prefix_witness:
  "holds full_tail_store full_tail_obj full_tail_vector \<and> pvector_inv full_tail_vector \<and>
   (\<exists>st' v2. append_store full_tail_store full_tail_obj 32 = Inr (st', v2) \<and>
      len_store v2 = 33 \<and>
      getitem_store st' v2 31 = Inr (Elem 31) \<and>
      getitem_store st' v2 32 = Inr (Elem 32) \<and>
      getitem_store st' full_tail_obj 31 = Inr (Elem 31) \<and>
      getitem_store st' full_tail_obj 32 = Inl IndexError \<and>
      extends full_tail_store st')"
proof -
  have inv: "pvector_inv full_tail_vector"
    unfolding full_tail_vector_def
    by (rule pvector_invI [of _ 0 0]) (simp_all add: SHIFT_def)
  have h: "holds full_tail_store full_tail_obj full_tail_vector"
    by (simp add: holds_def full_tail_store_def full_tail_obj_def full_tail_vector_def
        PVector_new_def tail_offset_def)
  have l: "len_store full_tail_obj = 32"
    by (simp add: len_store_def full_tail_obj_def PVector_new_def)
  have g: "getitem_store full_tail_store full_tail_obj 31 = Inr (Elem 31)"
    "getitem_store full_tail_store full_tail_obj 32 = Inl IndexError"
    by (simp_all add: getitem_store_def node_for_store_def full_tail_store_def full_tail_obj_def
        PVector_new_def list_get_def and_BIT_MASK)
  from append_shares_prefix [OF h inv, of 32] obtain st' v2 where
    r: "append_store full_tail_store full_tail_obj 32 = Inr (st', v2)"
      "len_store v2 = len_store full_tail_obj + 1"
      "\<And>i. 0 \<le> i \<and> i < int (len_store full_tail_obj) \<Longrightarrow>
         getitem_store st' v2 i = getitem_store full_tail_store full_tail_obj i"
      "getitem_store st' v2 (int (len_store full_tail_obj)) = Inr (Elem 32)"
      "extends full_tail_store st'"
      "\<And>i. getitem_store st' full_tail_obj i = getitem_store full_tail_store full_tail_obj i"
    by blast
  from r(3) [of 31] have "getitem_store st' v2 31 = Inr (Elem 31)"
    by (simp add: l g)
  moreover from r(4) have "getitem_store st' v2 32 = Inr (Elem 32)"
    by (simp add: l)
  moreover from r(6) [of 31] r(6) [of 32]
  have "getitem_store st' full_tail_obj 31 = Inr (Elem 31)"
    "getitem_store st' full_tail_obj 32 = Inl IndexError"
    by (simp_all add: g)
  ultimately show ?thesis
    using h inv r(1,2,5) l by auto
qed

text \<open>The store after that call: the copy of the root, with the old tail in it, and the new tail.\<close>

lemma append_full_tail:
  "append_store full_tail_store full_tail_obj 32 =
     Inr ([[], map Elem [0..<32], [Ref 1], [Elem 32]],
          \<lparr>obj_count = 33, obj_shift = 5, obj_root = 2, obj_tail = 3, obj_tail_offset = 32\<rparr>)"
  by code_simp


text \<open>
  C4. For a vector \<open>v\<close> and an integer index \<open>i\<close>, with \<open>j\<close> the index after a negative
  \<open>i\<close> is resolved as \<open>i + len(v)\<close>: when \<open>j = len(v)\<close>, \<open>v.set(i, val)\<close> is
  \<open>v.append(val)\<close>; when \<open>0 \<le> j < len(v)\<close> it is a vector of the same length whose
  elements are those of \<open>v\<close> but for \<open>val\<close> at position \<open>j\<close>; when \<open>j\<close> is outside
  \<open>[0, len(v)]\<close> it raises IndexError.
\<close>

theorem set_pvector_cases:
  assumes inv: "pvector_inv v"
  shows "let j = (if i < 0 then i + int (len v) else i) in
         (j = int (len v) \<longrightarrow> set_pvector v i val = Inr (append_pvector v val)) \<and>
         (0 \<le> j \<and> j < int (len v) \<longrightarrow>
            (\<exists>v'. set_pvector v i val = Inr v' \<and> pvector_inv v' \<and> len v' = len v \<and>
               tolist v' = (tolist v)[nat j := val] \<and>
               getitem v' j = Inr val \<and>
               (\<forall>k. 0 \<le> k \<and> k < int (len v) \<and> k \<noteq> j \<longrightarrow> getitem v' k = getitem v k))) \<and>
         (j < 0 \<or> int (len v) < j \<longrightarrow> set_pvector v i val = Inl IndexError)"
proof -
  define j where "j = (if i < 0 then i + int (len v) else i)"
  have resolve: "set_pvector v i val = set_pvector v j val" if "0 \<le> j"
    using that by (auto simp: set_pvector_def j_def len_def Let_def)
  have lt: "length (tolist v) = count v"
    by (rule length_tolist [OF inv])
  have "set_pvector v i val = Inr (append_pvector v val)" if "j = int (len v)"
    using that resolve by (simp add: set_pvector_def len_def)
  moreover have "\<exists>v'. set_pvector v i val = Inr v' \<and> pvector_inv v' \<and> len v' = len v \<and>
      tolist v' = (tolist v)[nat j := val] \<and> getitem v' j = Inr val \<and>
      (\<forall>k. 0 \<le> k \<and> k < int (len v) \<and> k \<noteq> j \<longrightarrow> getitem v' k = getitem v k)"
    if "0 \<le> j \<and> j < int (len v)"
  proof -
    from that have jr: "0 \<le> j" "j < int (count v)" by (simp_all add: len_def)
    from set_pvector_inside [OF inv jr, of val] obtain v' where
      v': "set_pvector v j val = Inr v'" "pvector_inv v'" "count v' = count v"
        "tolist v' = (tolist v)[nat j := val]"
      by blast
    from jr v'(3) have "getitem v' j = Inr (tolist v' ! nat j)"
      by (intro getitem_nonneg [OF v'(2)]) simp_all
    with jr lt have gj: "getitem v' j = Inr val"
      by (simp add: v'(4))
    have "getitem v' k = getitem v k" if "0 \<le> k \<and> k < int (len v) \<and> k \<noteq> j" for k
    proof -
      from that have kr: "0 \<le> k" "k < int (count v)" "k < int (count v')"
        by (simp_all add: len_def v'(3))
      from that jr have "nat k \<noteq> nat j"
        by linarith
      note kr = kr this
      from getitem_nonneg [OF v'(2) kr(1,3)] getitem_nonneg [OF inv kr(1,2)] kr(4)
      show ?thesis by (simp add: v'(4))
    qed
    with v' gj resolve [OF jr(1)] show ?thesis by (simp add: len_def)
  qed
  moreover have "set_pvector v i val = Inl IndexError" if "j < 0 \<or> int (len v) < j"
    using that by (auto simp: set_pvector_def len_def j_def Let_def split: if_splits)
  ultimately show ?thesis
    unfolding Let_def j_def [symmetric] by blast
qed

text \<open>The vector \<open>v(1, 2, 3)\<close>: \<open>set(3, 4)\<close> appends, \<open>set(-1, 4)\<close> replaces the last
  element, \<open>set(4, 4)\<close> and \<open>set(-4, 4)\<close> raise IndexError.\<close>

theorem set_pvector_cases_witness:
  "pvector_inv (PVector 3 5 (Inner []) [1, 2, 3::nat]) \<and>
   set_pvector (PVector 3 5 (Inner []) [1, 2, 3::nat]) 3 4 =
     Inr (append_pvector (PVector 3 5 (Inner []) [1, 2, 3::nat]) 4) \<and>
   (\<exists>v'. set_pvector (PVector 3 5 (Inner []) [1, 2, 3::nat]) (- 1) 4 = Inr v' \<and> tolist v' = [1, 2, 4]) \<and>
   set_pvector (PVector 3 5 (Inner []) [1, 2, 3::nat]) 4 4 = Inl IndexError \<and>
   set_pvector (PVector 3 5 (Inner []) [1, 2, 3::nat]) (- 4) 4 = Inl IndexError"
proof -
  let ?v = "PVector 3 5 (Inner []) [1, 2, 3::nat]"
  have inv: "pvector_inv ?v"
    by (rule pvector_invI [of _ 0 0]) (simp_all add: SHIFT_def)
  have t: "tolist ?v = [1, 2, 3]"
    by (simp add: tolist_def)
  from set_pvector_cases [OF inv, of 3 4] have "set_pvector ?v 3 4 = Inr (append_pvector ?v 4)"
    by (simp add: len_def)
  moreover from set_pvector_cases [OF inv, of "- 1" 4]
  have "\<exists>v'. set_pvector ?v (- 1) 4 = Inr v' \<and> tolist v' = [1, 2, 4]"
    by (auto simp: len_def tolist_def)
  moreover from set_pvector_cases [OF inv, of 4 4] have "set_pvector ?v 4 4 = Inl IndexError"
    by (simp add: len_def)
  moreover from set_pvector_cases [OF inv, of "- 4" 4] have "set_pvector ?v (- 4) 4 = Inl IndexError"
    by (simp add: len_def)
  ultimately show ?thesis using inv by blast
qed

subsection \<open>Comparisons\<close>

text \<open>
  A comparison method returns Python's \<open>NotImplemented\<close> or a result. Its operands are
  vectors or values of another type.
\<close>

datatype 'r answer = NotImplemented | Result 'r

datatype ('a, 'o) operand = Vec "'a pvector" | Other 'o

text \<open>\<open>_comparator\<close>: the wrapped method is called on two vectors only.\<close>

definition comparator ::
  "('a pvector \<Rightarrow> 'a pvector \<Rightarrow> 'r) \<Rightarrow> ('a, 'o) operand \<Rightarrow> ('a, 'o) operand \<Rightarrow> 'r answer" where
  "comparator f self other =
     (case self of
        Vec x \<Rightarrow> (case other of Vec y \<Rightarrow> Result (f x y) | Other _ \<Rightarrow> NotImplemented)
      | Other _ \<Rightarrow> NotImplemented)"

text \<open>
  The six comparison methods of \<open>PVector\<close>, each decorated with \<open>@_comparator\<close>. The
  ordering methods hand the two element lists to the host's comparison of lists, which is a
  parameter here: \<open>list_gt\<close>, \<open>list_lt\<close>, \<open>list_ge\<close> and \<open>list_le\<close> stand for \<open>>\<close>, \<open><\<close>, \<open>>=\<close> and
  \<open><=\<close> on two Python lists, with whatever they give, a boolean or an exception, on
  elements of any kind. Two lists are equal when they hold the same elements. In \<open>__eq__\<close>
  the test \<open>self is other\<close> is a shortcut: a vector has the elements it has.
\<close>

definition ne_pvector :: "('a, 'o) operand \<Rightarrow> ('a, 'o) operand \<Rightarrow> bool answer" where
  "ne_pvector = comparator (\<lambda>self other. tolist self \<noteq> tolist other)"

definition eq_pvector :: "('a, 'o) operand \<Rightarrow> ('a, 'o) operand \<Rightarrow> bool answer" where
  "eq_pvector = comparator (\<lambda>self other. tolist self = tolist other)"

definition gt_pvector ::
  "('a list \<Rightarrow> 'a list \<Rightarrow> 'r) \<Rightarrow> ('a, 'o) operand \<Rightarrow> ('a, 'o) operand \<Rightarrow> 'r answer" where
  "gt_pvector list_gt = comparator (\<lambda>self other. list_gt (tolist self) (tolist other))"

definition lt_pvector ::
  "('a list \<Rightarrow> 'a list \<Rightarrow> 'r) \<Rightarrow> ('a, 'o) operand \<Rightarrow> ('a, 'o) operand \<Rightarrow> 'r answer" where
  "lt_pvector list_lt = comparator (\<lambda>self other. list_lt (tolist self) (tolist other))"

definition ge_pvector ::
  "('a list \<Rightarrow> 'a list \<Rightarrow> 'r) \<Rightarrow> ('a, 'o) operand \<Rightarrow> ('a, 'o) operand \<Rightarrow> 'r answer" where
  "ge_pvector list_ge = comparator (\<lambda>self other. list_ge (tolist self) (tolist other))"

definition le_pvector ::
  "('a list \<Rightarrow> 'a list \<Rightarrow> 'r) \<Rightarrow> ('a, 'o) operand \<Rightarrow> ('a, 'o) operand \<Rightarrow> 'r answer" where
  "le_pvector list_le = comparator (\<lambda>self other. list_le (tolist self) (tolist other))"

text \<open>
  The host's operators \<open>v == x\<close> and \<open>v != x\<close> with a vector on the left. Python first calls
  the method of \<open>v\<close>; when that returns \<open>NotImplemented\<close> it calls the method of \<open>x\<close> with
  the operands swapped; when that too returns \<open>NotImplemented\<close> the operator compares
  identities, and a vector is not the same object as a value of another type. The methods
  of \<open>x\<close> are the parameters \<open>other_eq\<close> and \<open>other_ne\<close>; what they return is a boolean or
  any other object.
\<close>

datatype 'w pyvalue = Boolean bool | Object 'w

definition operator_eq ::
  "('o \<Rightarrow> 'a pvector \<Rightarrow> 'w pyvalue answer) \<Rightarrow> 'a pvector \<Rightarrow> ('a, 'o) operand \<Rightarrow> 'w pyvalue" where
  "operator_eq other_eq v x =
     (case eq_pvector (Vec v) x of
        Result b \<Rightarrow> Boolean b
      | NotImplemented \<Rightarrow>
          (case x of
             Other y \<Rightarrow> (case other_eq y v of Result r \<Rightarrow> r | NotImplemented \<Rightarrow> Boolean False)
           | Vec w \<Rightarrow> Boolean (v = w)))"

definition operator_ne ::
  "('o \<Rightarrow> 'a pvector \<Rightarrow> 'w pyvalue answer) \<Rightarrow> 'a pvector \<Rightarrow> ('a, 'o) operand \<Rightarrow> 'w pyvalue" where
  "operator_ne other_ne v x =
     (case ne_pvector (Vec v) x of
        Result b \<Rightarrow> Boolean b
      | NotImplemented \<Rightarrow>
          (case x of
             Other y \<Rightarrow> (case other_ne y v of Result r \<Rightarrow> r | NotImplemented \<Rightarrow> Boolean True)
           | Vec w \<Rightarrow> Boolean (v \<noteq> w)))"

text \<open>An operand of another type whose own \<open>__eq__\<close> and \<open>__ne__\<close> return the string \<open>'maybe'\<close>.\<close>

definition maybe :: "unit \<Rightarrow> 'a pvector \<Rightarrow> string pyvalue answer" where
  "maybe x v = Result (Object ''maybe'')"

text \<open>
  C9, as stated, fails. \<open>__eq__\<close> and \<open>__ne__\<close> are wrapped by \<open>_comparator\<close> like the ordering
  methods, so against a non-vector they return \<open>NotImplemented\<close> and the answer is left to
  the other operand. With the empty vector \<open>v\<close> and the operand \<open>x\<close> above, \<open>v == x\<close> and
  \<open>v != x\<close> are the string \<open>'maybe'\<close>, not a boolean.
\<close>

theorem eq_ne_not_total:
  "eq_pvector (Vec (PVector 0 5 (Inner []) ([] :: nat list))) (Other ()) = NotImplemented \<and>
   ne_pvector (Vec (PVector 0 5 (Inner []) ([] :: nat list))) (Other ()) = NotImplemented \<and>
   operator_eq maybe (PVector 0 5 (Inner []) ([] :: nat list)) (Other ()) = Object ''maybe'' \<and>
   operator_ne maybe (PVector 0 5 (Inner []) ([] :: nat list)) (Other ()) = Object ''maybe''"
  by (simp add: operator_eq_def operator_ne_def eq_pvector_def ne_pvector_def comparator_def
      maybe_def)

text \<open>
  C9, amended. For a vector \<open>v\<close> and a non-vector \<open>x\<close>, each of the six comparison methods,
  \<open>__eq__\<close> and \<open>__ne__\<close> included, returns \<open>NotImplemented\<close>, whatever the host's comparison
  of lists does. So \<open>v == x\<close> is what the \<open>__eq__\<close> of \<open>x\<close> answers, and \<open>False\<close> when it
  declines too; \<open>v != x\<close> is what the \<open>__ne__\<close> of \<open>x\<close> answers, and \<open>True\<close> when it declines:
  a boolean whenever \<open>x\<close> declines or answers one. On two vectors \<open>==\<close> and \<open>!=\<close> are the
  booleans that compare the element lists.
\<close>

theorem comparisons_of_pvector:
  "lt_pvector list_lt (Vec v) (Other x) = NotImplemented \<and>
   le_pvector list_le (Vec v) (Other x) = NotImplemented \<and>
   gt_pvector list_gt (Vec v) (Other x) = NotImplemented \<and>
   ge_pvector list_ge (Vec v) (Other x) = NotImplemented \<and>
   eq_pvector (Vec v) (Other x) = NotImplemented \<and>
   ne_pvector (Vec v) (Other x) = NotImplemented \<and>
   operator_eq other_eq v (Other x) =
     (case other_eq x v of NotImplemented \<Rightarrow> Boolean False | Result r \<Rightarrow> r) \<and>
   operator_ne other_ne v (Other x) =
     (case other_ne x v of NotImplemented \<Rightarrow> Boolean True | Result r \<Rightarrow> r) \<and>
   operator_eq other_eq v (Vec w) = Boolean (tolist v = tolist w) \<and>
   operator_ne other_ne v (Vec w) = Boolean (tolist v \<noteq> tolist w)"
  by (simp add: operator_eq_def operator_ne_def eq_pvector_def ne_pvector_def lt_pvector_def
      le_pvector_def gt_pvector_def ge_pvector_def comparator_def)

subsection \<open>The bulk load\<close>

lemma mutating_insert_tail_inv:
  assumes inv: "pvector_inv v" and full: "length (tail v) = 32"
  shows "pvector_inv (mutating_insert_tail v)" and "tolist (mutating_insert_tail v) = tolist v"
    and "tail (mutating_insert_tail v) = []" and "count (mutating_insert_tail v) = count v"
proof -
  have res: "mutating_insert_tail v =
      PVector (count v) (snd (create_new_root v)) (fst (create_new_root v)) []"
    by (simp add: mutating_insert_tail_def split: prod.splits)
  from create_new_root_wf [OF inv full] obtain h where
    r: "snd (create_new_root v) = SHIFT * Suc h"
      "wf_node (Suc h) (count v div 32) (fst (create_new_root v))"
      "fill_list (fst (create_new_root v)) (snd (create_new_root v)) = tolist v"
    by blast
  from inv obtain h' n where "count v = 32 * n + length (tail v)"
    by (rule pvector_invE)
  with full have "count v = 32 * (count v div 32) + length ([]::'a list)" by simp
  then show "pvector_inv (mutating_insert_tail v)"
    unfolding res using r by (intro pvector_invI [of _ h "count v div 32"]) simp_all
  show "tolist (mutating_insert_tail v) = tolist v"
    unfolding res by (simp add: tolist_def [of "PVector _ _ _ _"] r(3))
  show "tail (mutating_insert_tail v) = []" "count (mutating_insert_tail v) = count v"
    by (simp_all add: res)
qed

lemma mutating_fill_tail_inv:
  fixes v :: "'a pvector" and offset :: nat and sequence :: "'a list"
  assumes inv: "pvector_inv v"
  defines "delta \<equiv> take (BRANCH_FACTOR - length (tail v)) (drop offset sequence)"
  shows "pvector_inv (fst (mutating_fill_tail v offset sequence))"
    and "tolist (fst (mutating_fill_tail v offset sequence)) = tolist v @ delta"
    and "tail (fst (mutating_fill_tail v offset sequence)) = tail v @ delta"
    and "snd (mutating_fill_tail v offset sequence) = offset + length delta"
proof -
  have res: "mutating_fill_tail v offset sequence =
      (PVector (count v + length delta) (shift v) (root v) (tail v @ delta), offset + length delta)"
    by (simp add: mutating_fill_tail_def delta_def Let_def)
  from inv obtain h n where v: "shift v = SHIFT * Suc h" "count v = 32 * n + length (tail v)"
    "length (tail v) \<le> 32" "wf_node (Suc h) n (root v)"
    by (rule pvector_invE)
  have "length delta \<le> 32 - length (tail v)"
    by (simp add: delta_def BRANCH_FACTOR_def)
  with v(3) have "length (tail v @ delta) \<le> 32" by simp
  then show "pvector_inv (fst (mutating_fill_tail v offset sequence))"
    unfolding res using v by (intro pvector_invI [of _ h n]) simp_all
  show "tolist (fst (mutating_fill_tail v offset sequence)) = tolist v @ delta"
    by (simp add: res tolist_def)
  show "tail (fst (mutating_fill_tail v offset sequence)) = tail v @ delta"
    "snd (mutating_fill_tail v offset sequence) = offset + length delta"
    by (simp_all add: res)
qed

lemma mutating_extend_loop_returns:
  "pvector_inv v \<Longrightarrow>
   \<exists>v'. mutating_extend_loop v offset sequence = Some v' \<and> pvector_inv v' \<and>
        tolist v' = tolist v @ drop offset sequence"
proof (induction "2 * (length sequence - offset) + (if length (tail v) = 32 then 1 else (0::nat))"
    arbitrary: v offset rule: less_induct)
  case less
  show ?case
  proof (cases "offset < length sequence")
    case False
    then show ?thesis
      using less.prems by (subst mutating_extend_loop.simps) simp
  next
    case True
    define delta where "delta = take (BRANCH_FACTOR - length (tail v)) (drop offset sequence)"
    define v1 where "v1 = fst (mutating_fill_tail v offset sequence)"
    define offset1 where "offset1 = snd (mutating_fill_tail v offset sequence)"
    define v2 where "v2 = (if length (tail v1) = BRANCH_FACTOR then mutating_insert_tail v1 else v1)"
    note f = mutating_fill_tail_inv [OF less.prems, of offset sequence, folded delta_def v1_def offset1_def]
    from less.prems have tl: "length (tail v) \<le> 32"
      by (auto elim: pvector_invE)
    have unfold: "mutating_extend_loop v offset sequence = mutating_extend_loop v2 offset1 sequence"
      using True by (subst mutating_extend_loop.simps)
        (simp add: v2_def v1_def offset1_def split: prod.splits)
    have v2: "pvector_inv v2" "tolist v2 = tolist v @ delta"
      "length (tail v2) = 32 \<longleftrightarrow> False"
      "length (tail v) = 32 \<or> delta \<noteq> []"
    proof -
      show "pvector_inv v2"
        using f(1) mutating_insert_tail_inv(1) [OF f(1)] by (simp add: v2_def BRANCH_FACTOR_def)
      show "tolist v2 = tolist v @ delta"
        using f(2) mutating_insert_tail_inv(2) [OF f(1)] by (simp add: v2_def BRANCH_FACTOR_def)
      show "length (tail v2) = 32 \<longleftrightarrow> False"
        using mutating_insert_tail_inv(3) [OF f(1)] by (simp add: v2_def BRANCH_FACTOR_def)
      show "length (tail v) = 32 \<or> delta \<noteq> []"
        using True tl by (auto simp: delta_def BRANCH_FACTOR_def)
    qed
    have off: "offset1 = offset + length delta" "length delta \<le> length sequence - offset"
      using f(4) by (simp_all add: delta_def)
    have "2 * (length sequence - offset1) + (if length (tail v2) = 32 then 1 else (0::nat))
        < 2 * (length sequence - offset) + (if length (tail v) = 32 then 1 else 0)"
    proof (cases "length (tail v) = 32")
      case True
      then show ?thesis using off v2(3) by simp
    next
      case False
      with v2(4) have "0 < length delta" by simp
      with off True have "length sequence - offset1 < length sequence - offset" by linarith
      then show ?thesis using v2(3) False by simp
    qed
    from less.hyps [OF this v2(1)] obtain v' where
      v': "mutating_extend_loop v2 offset1 sequence = Some v'" "pvector_inv v'"
        "tolist v' = tolist v2 @ drop offset1 sequence"
      by blast
    have "delta @ drop offset1 sequence = drop offset sequence"
      unfolding off(1) delta_def
      by (metis add.commute append_take_drop_id drop_drop length_take min.commute take_all_iff le_refl nat_le_linear take_take min_def)
    with v' v2(2) unfold show ?thesis by simp
  qed
qed


lemma mutating_extend_returns:
  "pvector_inv v \<Longrightarrow>
   \<exists>v'. mutating_extend v sequence = Some v' \<and> pvector_inv v' \<and> tolist v' = tolist v @ sequence"
  using mutating_extend_loop_returns [of v 0 sequence] by (simp add: mutating_extend_def)

lemma extend_inv:
  assumes inv: "pvector_inv v"
  shows "pvector_inv (extend_pvector v l)" and "tolist (extend_pvector v l) = tolist v @ l"
proof -
  have "pvector_inv (extend_pvector v l) \<and> tolist (extend_pvector v l) = tolist v @ l"
  proof (cases l)
    case Nil
    with inv show ?thesis by (simp add: extend_pvector_def)
  next
    case (Cons x xs)
    note a = append_pvector_inv [OF inv, of x]
    from mutating_extend_returns [OF a(1), of xs] obtain v' where
      "mutating_extend (append_pvector v x) xs = Some v'" "pvector_inv v'"
      "tolist v' = tolist (append_pvector v x) @ xs"
      by blast
    with Cons a(2) show ?thesis by (simp add: extend_pvector_def)
  qed
  then show "pvector_inv (extend_pvector v l)" and "tolist (extend_pvector v l) = tolist v @ l"
    by simp_all
qed

lemma pvector_inv: "pvector_inv (pvector xs)"
  unfolding pvector_def by (rule extend_inv(1) [OF EMPTY_VECTOR_inv])

lemma tolist_pvector: "tolist (pvector xs) = xs"
  unfolding pvector_def by (simp add: extend_inv(2) [OF EMPTY_VECTOR_inv] tolist_EMPTY_VECTOR)

lemma count_pvector: "count (pvector xs) = length xs"
  using length_tolist [OF pvector_inv, of xs] by (simp add: tolist_pvector)

subsection \<open>The vector evolver\<close>

text \<open>
  An evolver copies a node of the trie the first time it writes to it and writes in
  place from then on; it tells the nodes it owns by their \<open>id\<close>. The nodes of the
  evolver's trie do not move during a session (an append goes to \<open>_extra_tail\<close>), so
  the model names a node by its place: the tail, or the level of the node and the
  index of its block of elements. \<open>_dirty_nodes\<close> is the set of the places the evolver
  has copied, \<open>_cached_leafs\<close> maps the number of a leaf to the place of the copied list
  that holds it, and a write to a copied list is a write at its place in the
  evolver's own trie.
\<close>

datatype node_id = TailNode | TreeNode nat nat

record 'a evolver =
  e_count :: nat
  e_shift :: nat
  e_root :: "'a node"
  e_tail :: "'a list"
  e_tail_offset :: nat
  dirty_nodes :: "node_id set"
  cached_leafs :: "nat \<rightharpoonup> node_id"
  extra_tail :: "'a list"

text \<open>\<open>_Evolver._reset\<close>, and \<open>PVector.evolver\<close>, which makes an evolver and resets it.\<close>

definition reset :: "'a pvector \<Rightarrow> 'a evolver" where
  "reset v =
     \<lparr>e_count = count v, e_shift = shift v, e_root = root v, e_tail = tail v,
      e_tail_offset = tail_offset v, dirty_nodes = {}, cached_leafs = Map.empty, extra_tail = []\<rparr>"

definition evolver :: "'a pvector \<Rightarrow> 'a evolver" where
  "evolver self = reset self"

text \<open>\<open>_Evolver._do_set\<close>: as \<open>PVector._do_set\<close>, but a node is copied and entered in
  \<open>_dirty_nodes\<close> only if it is not there yet, and the leaf is entered in \<open>_cached_leafs\<close>.\<close>

fun do_set_evolver ::
  "node_id set \<times> (nat \<rightharpoonup> node_id) \<Rightarrow> nat \<Rightarrow> 'a node \<Rightarrow> nat \<Rightarrow> 'a \<Rightarrow>
   error + ('a node \<times> node_id set \<times> (nat \<rightharpoonup> node_id))" where
  "do_set_evolver (dirty, cached) level (Leaf ret) i val =
     (if level = 0 then
        (case list_put ret (i AND BIT_MASK) val of
           Inl e \<Rightarrow> Inl e
         | Inr ret' \<Rightarrow>
             Inr (Leaf ret', insert (TreeNode level (drop_bit (level + SHIFT) i)) dirty,
                  cached(drop_bit SHIFT i \<mapsto> TreeNode level (drop_bit (level + SHIFT) i))))
      else Inl TypeError)"
| "do_set_evolver (dirty, cached) level (Inner ret) i val =
     (if level = 0 then Inl TypeError
      else if drop_bit level i AND BIT_MASK < length ret then
        (case do_set_evolver (insert (TreeNode level (drop_bit (level + SHIFT) i)) dirty, cached)
                (level - SHIFT) (ret ! (drop_bit level i AND BIT_MASK)) i val of
           Inl e \<Rightarrow> Inl e
         | Inr (sub, dirty', cached') \<Rightarrow>
             Inr (Inner (ret[drop_bit level i AND BIT_MASK := sub]), dirty', cached'))
      else Inl IndexError)"

text \<open>\<open>_Evolver.__setitem__\<close> at an integer index.\<close>

definition setitem_evolver :: "'a evolver \<Rightarrow> int \<Rightarrow> 'a \<Rightarrow> error + 'a evolver" where
  "setitem_evolver self index val =
     (let index = (if index < 0 then index + int (e_count self) + int (length (extra_tail self))
                   else index) in
      if 0 \<le> index \<and> index < int (e_count self) then
        (case cached_leafs self (drop_bit SHIFT (nat index)) of
           Some TailNode \<Rightarrow>
             (case list_put (e_tail self) (nat index AND BIT_MASK) val of
                Inl e \<Rightarrow> Inl e
              | Inr new_tail \<Rightarrow> Inr (self\<lparr>e_tail := new_tail\<rparr>))
         | Some (TreeNode level block) \<Rightarrow>
             (case do_set (e_shift self) (e_root self) (nat index) val of
                Inl e \<Rightarrow> Inl e
              | Inr new_root \<Rightarrow> Inr (self\<lparr>e_root := new_root\<rparr>))
         | None \<Rightarrow>
             if index \<ge> int (e_tail_offset self) then
               (case list_put (e_tail self) (nat index AND BIT_MASK) val of
                  Inl e \<Rightarrow> Inl e
                | Inr new_tail \<Rightarrow>
                    Inr (if TailNode \<notin> dirty_nodes self then
                           self\<lparr>e_tail := new_tail,
                                dirty_nodes := insert TailNode (dirty_nodes self),
                                cached_leafs := (cached_leafs self)(drop_bit SHIFT (nat index) \<mapsto> TailNode)\<rparr>
                         else self\<lparr>e_tail := new_tail\<rparr>))
             else
               (case do_set_evolver (dirty_nodes self, cached_leafs self) (e_shift self)
                       (e_root self) (nat index) val of
                  Inl e \<Rightarrow> Inl e
                | Inr (new_root, dirty, cached) \<Rightarrow>
                    Inr (self\<lparr>e_root := new_root, dirty_nodes := dirty, cached_leafs := cached\<rparr>)))
      else if int (e_count self) \<le> index \<and>
              index < int (e_count self) + int (length (extra_tail self)) then
        Inr (self\<lparr>extra_tail := (extra_tail self)[nat (index - int (e_count self)) := val]\<rparr>)
      else if index = int (e_count self) + int (length (extra_tail self)) then
        Inr (self\<lparr>extra_tail := extra_tail self @ [val]\<rparr>)
      else Inl IndexError)"

text \<open>\<open>_Evolver.append\<close>, \<open>_Evolver.__len__\<close>, \<open>_Evolver.is_dirty\<close> (as a truth value) and
  \<open>_Evolver.__getitem__\<close>.\<close>

definition append_evolver :: "'a evolver \<Rightarrow> 'a \<Rightarrow> 'a evolver" where
  "append_evolver self element = self\<lparr>extra_tail := extra_tail self @ [element]\<rparr>"

definition len_evolver :: "'a evolver \<Rightarrow> nat" where
  "len_evolver self = e_count self + length (extra_tail self)"

definition is_dirty :: "'a evolver \<Rightarrow> bool" where
  "is_dirty self \<longleftrightarrow> dirty_nodes self \<noteq> {} \<or> extra_tail self \<noteq> []"

definition getitem_evolver :: "'a evolver \<Rightarrow> int \<Rightarrow> error + 'a" where
  "getitem_evolver self index =
     (let index = (if index < 0 then index + int (e_count self) + int (length (extra_tail self))
                   else index) in
      if int (e_count self) \<le> index \<and> index < int (e_count self) + int (length (extra_tail self))
      then Inr (extra_tail self ! nat (index - int (e_count self)))
      else (case node_for (e_count self) (e_shift self) (e_root self) (e_tail self) index of
              Inl e \<Rightarrow> Inl e
            | Inr nd \<Rightarrow> list_get nd (nat index AND BIT_MASK)))"

text \<open>\<open>_Evolver.persistent\<close>: the new vector, and the evolver reset to it.\<close>

definition persistent :: "'a evolver \<Rightarrow> 'a pvector \<times> 'a evolver" where
  "persistent self =
     (let v = extend_pvector (PVector (e_count self) (e_shift self) (e_root self) (e_tail self))
                (extra_tail self)
      in (v, reset v))"


text \<open>
  The state of an evolver between two operations: its fields are those of a
  well-formed vector, and a cached leaf is a copied list where the evolver's trie (or
  its tail) holds that leaf.
\<close>

definition ev_vector :: "'a evolver \<Rightarrow> 'a pvector" where
  "ev_vector e = PVector (e_count e) (e_shift e) (e_root e) (e_tail e)"

definition ev_list :: "'a evolver \<Rightarrow> 'a list" where
  "ev_list e = tolist (ev_vector e) @ extra_tail e"

fun place_ok :: "nat \<Rightarrow> nat \<Rightarrow> node_id \<Rightarrow> bool" where
  "place_ok off b TailNode \<longleftrightarrow> off \<le> 32 * b"
| "place_ok off b (TreeNode level block) \<longleftrightarrow> 32 * b < off"

definition evolver_inv :: "'a evolver \<Rightarrow> bool" where
  "evolver_inv e \<longleftrightarrow>
     pvector_inv (ev_vector e) \<and> e_tail_offset e = tail_offset (ev_vector e) \<and>
     (\<forall>b nid. cached_leafs e b = Some nid \<longrightarrow>
        nid \<in> dirty_nodes e \<and>
        place_ok (e_tail_offset e) b nid)"

lemma do_set_evolver_ok:
  "do_set level node i val = Inr r \<Longrightarrow>
   \<exists>D. do_set_evolver (d, c) level node i val =
          Inr (r, D, c(drop_bit SHIFT i \<mapsto> TreeNode 0 (drop_bit SHIFT i))) \<and> d \<subseteq> D \<and>
        TreeNode 0 (drop_bit SHIFT i) \<in> D"
proof (induction level node i val arbitrary: d r rule: do_set.induct)
  case (1 level ret i val)
  then show ?case
    by (auto split: if_splits sum.splits)
next
  case (2 level ret i val)
  let ?s = "drop_bit level i AND BIT_MASK"
  let ?d = "insert (TreeNode level (drop_bit (level + SHIFT) i)) d"
  from "2.prems" have l: "level \<noteq> 0" and s: "?s < length ret"
    by (auto split: if_splits)
  from "2.prems" l s obtain sub where sub: "do_set (level - SHIFT) (ret ! ?s) i val = Inr sub"
    and r: "r = Inner (ret[?s := sub])"
    by (auto split: sum.splits)
  from "2.IH" [OF l s sub, of ?d] obtain D where
    D: "do_set_evolver (?d, c) (level - SHIFT) (ret ! ?s) i val =
          Inr (sub, D, c(drop_bit SHIFT i \<mapsto> TreeNode 0 (drop_bit SHIFT i)))" "?d \<subseteq> D"
       "TreeNode 0 (drop_bit SHIFT i) \<in> D"
    by blast
  with l s r show ?case by auto
qed

lemma reset_inv: "pvector_inv v \<Longrightarrow> evolver_inv (reset v)"
  by (cases v) (simp add: evolver_inv_def reset_def ev_vector_def)

lemma ev_list_reset: "ev_list (reset v) = tolist v"
  by (cases v) (simp add: ev_list_def reset_def ev_vector_def)

lemma is_dirty_reset: "\<not> is_dirty (reset v)"
  by (simp add: is_dirty_def reset_def)

lemma len_evolver_reset: "len_evolver (reset v) = count v"
  by (simp add: len_evolver_def reset_def)

lemma length_ev_list: "evolver_inv e \<Longrightarrow> length (ev_list e) = len_evolver e"
  by (simp add: ev_list_def evolver_inv_def length_tolist len_evolver_def ev_vector_def)

lemma block_in_tail:
  assumes "(off::nat) \<le> 32 * b" and "drop_bit SHIFT k = b"
  shows "off \<le> k"
proof -
  from assms(2) have "b = k div 32" by (simp add: drop_bit_eq_div SHIFT_def)
  then have "32 * b \<le> k" by simp
  with assms(1) show ?thesis by simp
qed

lemma block_in_tree:
  assumes "(off::nat) = 32 * n" and "32 * b < off" and "drop_bit SHIFT k = b"
  shows "k < off"
proof -
  from assms(3) have b: "b = k div 32" by (simp add: drop_bit_eq_div SHIFT_def)
  from assms(1,2) have "Suc b \<le> n" by simp
  then have "32 * Suc b \<le> 32 * n" by simp
  moreover have "k < 32 * Suc b"
    unfolding b using div_less_iff_less_mult [of 32 k "Suc (k div 32)"] by (simp add: mult.commute)
  ultimately show ?thesis using assms(1) by simp
qed

lemma set_pvector_tail_branch:
  "k < count v \<Longrightarrow> tail_offset v \<le> k \<Longrightarrow>
   set_pvector v (int k) x =
     (case list_put (tail v) (k AND BIT_MASK) x of
        Inl e \<Rightarrow> Inl e
      | Inr nt \<Rightarrow> Inr (PVector (count v) (shift v) (root v) nt))"
  by (simp add: set_pvector_def Let_def)

lemma set_pvector_tree_branch:
  "k < count v \<Longrightarrow> k < tail_offset v \<Longrightarrow>
   set_pvector v (int k) x =
     (case do_set (shift v) (root v) k x of
        Inl e \<Rightarrow> Inl e
      | Inr nr \<Rightarrow> Inr (PVector (count v) (shift v) nr (tail v)))"
  by (simp add: set_pvector_def Let_def)

lemma ev_vector_simps [simp]:
  "count (ev_vector e) = e_count e" "shift (ev_vector e) = e_shift e"
  "root (ev_vector e) = e_root e" "tail (ev_vector e) = e_tail e"
  by (simp_all add: ev_vector_def)

text \<open>An update of the evolver's fields that keeps \<open>_count\<close> and the length of the tail,
  and only adds to the cache entries for copied nodes at the right places.\<close>

lemma evolver_step:
  assumes inv: "evolver_inv e" and k: "k < e_count e"
    and v': "pvector_inv v'" "count v' = e_count e" "tolist v' = (tolist (ev_vector e))[k := x]"
      "length (tail v') = length (e_tail e)"
    and e': "ev_vector e' = v'" "extra_tail e' = extra_tail e" "e_tail_offset e' = e_tail_offset e"
      "dirty_nodes e \<subseteq> dirty_nodes e'" "dirty_nodes e' \<noteq> {}"
    and cache: "\<And>b nid. cached_leafs e' b = Some nid \<Longrightarrow> cached_leafs e b \<noteq> Some nid \<Longrightarrow>
        nid \<in> dirty_nodes e' \<and>
        place_ok (e_tail_offset e) b nid"
  shows "evolver_inv e' \<and> is_dirty e' \<and> ev_list e' = (ev_list e)[k := x] \<and>
         len_evolver e' = len_evolver e"
proof -
  from inv have vinv: "pvector_inv (ev_vector e)" and off: "e_tail_offset e = tail_offset (ev_vector e)"
    and old: "\<And>b nid. cached_leafs e b = Some nid \<Longrightarrow> nid \<in> dirty_nodes e \<and>
        place_ok (e_tail_offset e) b nid"
    unfolding evolver_inv_def by blast+
  have lt: "length (tolist (ev_vector e)) = e_count e"
    using length_tolist [OF vinv] by simp
  have "tail_offset v' = e_tail_offset e"
    using v'(2,4) off by (simp add: tail_offset_def)
  moreover have "nid \<in> dirty_nodes e' \<and>
      place_ok (e_tail_offset e) b nid"
    if "cached_leafs e' b = Some nid" for b nid
  proof (cases "cached_leafs e b = Some nid")
    case True
    from old [OF this] e'(4) show ?thesis by auto
  next
    case False
    from cache [OF that this] show ?thesis .
  qed
  ultimately have "evolver_inv e'"
    unfolding evolver_inv_def e'(1) e'(3) using v'(1) by (intro conjI allI impI) simp_all
  moreover have "is_dirty e'"
    using e'(5) by (simp add: is_dirty_def)
  moreover have "ev_list e' = (ev_list e)[k := x]"
    using k lt by (simp add: ev_list_def e' v'(3) list_update_append)
  moreover have "len_evolver e' = len_evolver e"
    using arg_cong [OF e'(1), of count] by (simp add: len_evolver_def e'(2) v'(2))
  ultimately show ?thesis by simp
qed

lemma setitem_evolver_inside:
  assumes inv: "evolver_inv e" and i: "0 \<le> i" "i < int (e_count e)"
  shows "\<exists>e'. setitem_evolver e i x = Inr e' \<and> evolver_inv e' \<and> is_dirty e' \<and>
           ev_list e' = (ev_list e)[nat i := x] \<and> len_evolver e' = len_evolver e"
proof -
  let ?v = "ev_vector e"
  define k where "k = nat i"
  from i have ik: "i = int k" and k: "k < e_count e" by (simp_all add: k_def)
  from inv have vinv: "pvector_inv ?v" and off: "e_tail_offset e = tail_offset ?v"
    and cache: "\<And>b nid. cached_leafs e b = Some nid \<Longrightarrow> nid \<in> dirty_nodes e \<and>
        place_ok (e_tail_offset e) b nid"
    unfolding evolver_inv_def by blast+
  from vinv obtain h n where v: "tail_offset ?v = 32 * n"
    by (rule pvector_invE)
  from k have i': "0 \<le> int k" "int k < int (count ?v)" by simp_all
  from set_pvector_inside [OF vinv i', of x] obtain v' where
    v': "set_pvector ?v (int k) x = Inr v'" "pvector_inv v'" "count v' = e_count e"
      "tolist v' = (tolist ?v)[k := x]"
    by auto
  have in_tail: "\<exists>nt. list_put (e_tail e) (k AND BIT_MASK) x = Inr nt \<and> length nt = length (e_tail e) \<and>
      v' = PVector (e_count e) (e_shift e) (e_root e) nt" if "e_tail_offset e \<le> k"
    using v'(1) that k set_pvector_tail_branch [of k ?v x]
    by (auto simp: off list_put_def split: sum.splits if_splits)
  have in_tree: "\<exists>nr. do_set (e_shift e) (e_root e) k x = Inr nr \<and>
      v' = PVector (e_count e) (e_shift e) nr (e_tail e)" if "k < e_tail_offset e"
    using v'(1) that k set_pvector_tree_branch [of k ?v x]
    by (auto simp: off split: sum.splits)
  have "\<exists>e'. setitem_evolver e (int k) x = Inr e' \<and> evolver_inv e' \<and> is_dirty e' \<and>
           ev_list e' = (ev_list e)[k := x] \<and> len_evolver e' = len_evolver e"
  proof (cases "cached_leafs e (drop_bit SHIFT k)")
    case None
    show ?thesis
    proof (cases "e_tail_offset e \<le> k")
      case True
      from in_tail [OF True] obtain nt where nt: "list_put (e_tail e) (k AND BIT_MASK) x = Inr nt"
        "length nt = length (e_tail e)" "v' = PVector (e_count e) (e_shift e) (e_root e) nt"
        by blast
      define e' where "e' = (if TailNode \<notin> dirty_nodes e then
          e\<lparr>e_tail := nt, dirty_nodes := insert TailNode (dirty_nodes e),
            cached_leafs := (cached_leafs e)(drop_bit SHIFT k \<mapsto> TailNode)\<rparr>
          else e\<lparr>e_tail := nt\<rparr>)"
      from True k None nt(1) have res: "setitem_evolver e (int k) x = Inr e'"
        by (simp add: setitem_evolver_def e'_def)
      have d: "TailNode \<in> dirty_nodes e'"
        by (auto simp: e'_def)
      have "nid \<in> dirty_nodes e' \<and>
          place_ok (e_tail_offset e) b nid"
        if "cached_leafs e' b = Some nid" "cached_leafs e b \<noteq> Some nid" for b nid
      proof -
        from that have b: "b = drop_bit SHIFT k" "nid = TailNode"
          by (auto simp: e'_def split: if_splits)
        have "32 * n \<le> 32 * (k div 32)"
          using True off v by (simp add: less_eq_div_iff_mult_less_eq mult.commute)
        with b d off v show ?thesis
          by (simp add: drop_bit_eq_div SHIFT_def)
      qed
      then have cache': "\<And>b nid. cached_leafs e' b = Some nid \<Longrightarrow> cached_leafs e b \<noteq> Some nid \<Longrightarrow>
          nid \<in> dirty_nodes e' \<and>
          place_ok (e_tail_offset e) b nid"
        by blast
      have ev: "ev_vector e' = v'" "extra_tail e' = extra_tail e" "e_tail_offset e' = e_tail_offset e"
        "dirty_nodes e \<subseteq> dirty_nodes e'" "dirty_nodes e' \<noteq> {}"
        using d by (auto simp: e'_def ev_vector_def nt(3))
      have "length (tail v') = length (e_tail e)"
        by (simp add: nt(2,3))
      from evolver_step [OF inv k v'(2,3,4) this ev cache'] res show ?thesis
        by blast
    next
      case False
      then have lt': "k < e_tail_offset e" by simp
      from in_tree [OF lt'] obtain nr where nr: "do_set (e_shift e) (e_root e) k x = Inr nr"
        "v' = PVector (e_count e) (e_shift e) nr (e_tail e)"
        by blast
      from do_set_evolver_ok [OF nr(1), of "dirty_nodes e" "cached_leafs e"] obtain D where
        D: "do_set_evolver (dirty_nodes e, cached_leafs e) (e_shift e) (e_root e) k x =
              Inr (nr, D, (cached_leafs e)(drop_bit SHIFT k \<mapsto> TreeNode 0 (drop_bit SHIFT k)))"
          "dirty_nodes e \<subseteq> D" "TreeNode 0 (drop_bit SHIFT k) \<in> D"
        by blast
      define e' where "e' = e\<lparr>e_root := nr, dirty_nodes := D,
          cached_leafs := (cached_leafs e)(drop_bit SHIFT k \<mapsto> TreeNode 0 (drop_bit SHIFT k))\<rparr>"
      from False k None D(1) have res: "setitem_evolver e (int k) x = Inr e'"
        by (simp add: setitem_evolver_def e'_def)
      have "nid \<in> dirty_nodes e' \<and>
          place_ok (e_tail_offset e) b nid"
        if "cached_leafs e' b = Some nid" "cached_leafs e b \<noteq> Some nid" for b nid
      proof -
        from that have b: "b = drop_bit SHIFT k" "nid = TreeNode 0 (drop_bit SHIFT k)"
          by (auto simp: e'_def split: if_splits)
        have "32 * (k div 32) \<le> k" by simp
        with lt' have "32 * (k div 32) < e_tail_offset e" by linarith
        with b D(3) show ?thesis
          by (simp add: drop_bit_eq_div SHIFT_def e'_def)
      qed
      then have cache': "\<And>b nid. cached_leafs e' b = Some nid \<Longrightarrow> cached_leafs e b \<noteq> Some nid \<Longrightarrow>
          nid \<in> dirty_nodes e' \<and>
          place_ok (e_tail_offset e) b nid"
        by blast
      have ev: "ev_vector e' = v'" "extra_tail e' = extra_tail e" "e_tail_offset e' = e_tail_offset e"
        "dirty_nodes e \<subseteq> dirty_nodes e'" "dirty_nodes e' \<noteq> {}"
        using D(2,3) by (auto simp: e'_def ev_vector_def nr(2))
      have "length (tail v') = length (e_tail e)"
        by (simp add: nr(2))
      from evolver_step [OF inv k v'(2,3,4) this ev cache'] res show ?thesis
        by blast
    qed
  next
    case (Some nid)
    note c = cache [OF Some]
    show ?thesis
    proof (cases nid)
      case TailNode
      with c have "e_tail_offset e \<le> 32 * drop_bit SHIFT k" by simp
      then have True: "e_tail_offset e \<le> k" by (rule block_in_tail) simp
      from in_tail [OF True] obtain nt where nt: "list_put (e_tail e) (k AND BIT_MASK) x = Inr nt"
        "length nt = length (e_tail e)" "v' = PVector (e_count e) (e_shift e) (e_root e) nt"
        by blast
      define e' where "e' = e\<lparr>e_tail := nt\<rparr>"
      from k Some TailNode nt(1) have res: "setitem_evolver e (int k) x = Inr e'"
        by (simp add: setitem_evolver_def e'_def)
      from c have dne: "dirty_nodes e \<noteq> {}" by auto
      have ev: "ev_vector e' = v'" "extra_tail e' = extra_tail e" "e_tail_offset e' = e_tail_offset e"
        "dirty_nodes e \<subseteq> dirty_nodes e'" "dirty_nodes e' \<noteq> {}"
        using dne by (auto simp: e'_def ev_vector_def nt(3))
      have cache': "\<And>b nid. cached_leafs e' b = Some nid \<Longrightarrow> cached_leafs e b \<noteq> Some nid \<Longrightarrow>
          nid \<in> dirty_nodes e' \<and>
          place_ok (e_tail_offset e) b nid"
        by (simp add: e'_def)
      have "length (tail v') = length (e_tail e)"
        by (simp add: nt(2,3))
      from evolver_step [OF inv k v'(2,3,4) this ev cache'] res show ?thesis
        by blast
    next
      case (TreeNode level block)
      with c have "32 * drop_bit SHIFT k < e_tail_offset e" by simp
      moreover have "e_tail_offset e = 32 * n" by (simp only: off v)
      ultimately have lt': "k < e_tail_offset e"
        using block_in_tree [of "e_tail_offset e" n "drop_bit SHIFT k" k] by blast
      from in_tree [OF lt'] obtain nr where nr: "do_set (e_shift e) (e_root e) k x = Inr nr"
        "v' = PVector (e_count e) (e_shift e) nr (e_tail e)"
        by blast
      define e' where "e' = e\<lparr>e_root := nr\<rparr>"
      from k Some TreeNode nr(1) have res: "setitem_evolver e (int k) x = Inr e'"
        by (simp add: setitem_evolver_def e'_def)
      from c have dne: "dirty_nodes e \<noteq> {}" by auto
      have ev: "ev_vector e' = v'" "extra_tail e' = extra_tail e" "e_tail_offset e' = e_tail_offset e"
        "dirty_nodes e \<subseteq> dirty_nodes e'" "dirty_nodes e' \<noteq> {}"
        using dne by (auto simp: e'_def ev_vector_def nr(2))
      have cache': "\<And>b nid. cached_leafs e' b = Some nid \<Longrightarrow> cached_leafs e b \<noteq> Some nid \<Longrightarrow>
          nid \<in> dirty_nodes e' \<and>
          place_ok (e_tail_offset e) b nid"
        by (simp add: e'_def)
      have "length (tail v') = length (e_tail e)"
        by (simp add: nr(2))
      from evolver_step [OF inv k v'(2,3,4) this ev cache'] res show ?thesis
        by blast
    qed
  qed
  then show ?thesis by (simp add: ik)
qed


lemma setitem_evolver_extra:
  assumes inv: "evolver_inv e" and i: "int (e_count e) \<le> i" "i < int (len_evolver e)"
  shows "\<exists>e'. setitem_evolver e i x = Inr e' \<and> evolver_inv e' \<and> is_dirty e' \<and>
           ev_list e' = (ev_list e)[nat i := x] \<and> len_evolver e' = len_evolver e"
proof -
  define e' where "e' = e\<lparr>extra_tail := (extra_tail e)[nat (i - int (e_count e)) := x]\<rparr>"
  from i have res: "setitem_evolver e i x = Inr e'"
    by (simp add: setitem_evolver_def e'_def len_evolver_def)
  from inv have "length (tolist (ev_vector e)) = e_count e"
    by (simp add: evolver_inv_def length_tolist)
  moreover from i have "nat i - e_count e = nat (i - int (e_count e))" "\<not> nat i < e_count e"
    by linarith+
  ultimately have "ev_list e' = (ev_list e)[nat i := x]"
    by (simp add: ev_list_def e'_def ev_vector_def list_update_append)
  moreover from inv have "evolver_inv e'"
    by (auto simp: evolver_inv_def e'_def ev_vector_def)
  moreover from i have "is_dirty e'"
    by (auto simp: is_dirty_def e'_def len_evolver_def)
  ultimately show ?thesis
    using res by (simp add: len_evolver_def e'_def)
qed

lemma setitem_evolver_end:
  assumes inv: "evolver_inv e"
  shows "setitem_evolver e (int (len_evolver e)) x = Inr (append_evolver e x)"
  by (simp add: setitem_evolver_def append_evolver_def len_evolver_def)

lemma append_evolver_inv:
  assumes inv: "evolver_inv e"
  shows "evolver_inv (append_evolver e x)" and "is_dirty (append_evolver e x)"
    and "ev_list (append_evolver e x) = ev_list e @ [x]"
    and "len_evolver (append_evolver e x) = Suc (len_evolver e)"
  using inv by (auto simp: evolver_inv_def append_evolver_def ev_vector_def is_dirty_def
      ev_list_def len_evolver_def)

lemma setitem_evolver_out_of_range:
  "i + int (len_evolver e) < 0 \<or> int (len_evolver e) < i \<Longrightarrow> setitem_evolver e i x = Inl IndexError"
  by (auto simp: setitem_evolver_def len_evolver_def Let_def)

lemma getitem_evolver_inside:
  assumes inv: "evolver_inv e" and i: "0 \<le> i" "i < int (len_evolver e)"
  shows "getitem_evolver e i = Inr (ev_list e ! nat i)"
proof (cases "i < int (e_count e)")
  case True
  from inv have vinv: "pvector_inv (ev_vector e)"
    by (simp add: evolver_inv_def)
  from True i have "getitem_evolver e i = getitem (ev_vector e) i"
    by (simp add: getitem_evolver_def getitem_def)
  also have "\<dots> = Inr (tolist (ev_vector e) ! nat i)"
    using getitem_nonneg [OF vinv i(1)] True by simp
  also have "tolist (ev_vector e) ! nat i = ev_list e ! nat i"
  proof -
    from True i have "nat i < e_count e" by linarith
    then show ?thesis
      using length_tolist [OF vinv] by (simp add: ev_list_def nth_append)
  qed
  finally show ?thesis .
next
  case False
  from inv have "length (tolist (ev_vector e)) = e_count e"
    by (simp add: evolver_inv_def length_tolist)
  moreover from False i have "nat i - e_count e = nat (i - int (e_count e))" "\<not> nat i < e_count e"
    by linarith+
  ultimately show ?thesis
    using False i by (simp add: getitem_evolver_def len_evolver_def ev_list_def nth_append)
qed

lemma persistent_inv:
  assumes inv: "evolver_inv e"
  shows "pvector_inv (fst (persistent e))" and "tolist (fst (persistent e)) = ev_list e"
    and "snd (persistent e) = reset (fst (persistent e))"
proof -
  from inv have vinv: "pvector_inv (ev_vector e)"
    by (simp add: evolver_inv_def)
  have res: "fst (persistent e) = extend_pvector (ev_vector e) (extra_tail e)"
    by (simp add: persistent_def ev_vector_def Let_def)
  show "pvector_inv (fst (persistent e))"
    unfolding res by (rule extend_inv(1) [OF vinv])
  show "tolist (fst (persistent e)) = ev_list e"
    unfolding res by (simp add: extend_inv(2) [OF vinv] ev_list_def)
  show "snd (persistent e) = reset (fst (persistent e))"
    by (simp add: persistent_def Let_def)
qed

section \<open>PMap\<close>

text \<open>
  A bucket is \<open>None\<close> or a list of key-value pairs, and is truthy iff it is a list that
  is not empty. Keys are compared with \<open>==\<close>, which is equality in the model; \<open>hash\<close> is
  a parameter. Values are compared with \<open>is\<close>: a value of the model stands for a
  reference to an object, and \<open>is\<close> is equality of references.
\<close>

type_synonym ('k, 'v) bucket = "('k \<times> 'v) list option"

datatype ('k, 'v) pmap = PMap (pm_size: nat) (buckets: "('k, 'v) bucket pvector")

definition truthy :: "('k, 'v) bucket \<Rightarrow> bool" where
  "truthy bucket \<longleftrightarrow> (case bucket of None \<Rightarrow> False | Some xs \<Rightarrow> xs \<noteq> [])"

definition bucket_items :: "('k, 'v) bucket \<Rightarrow> ('k \<times> 'v) list" where
  "bucket_items bucket = (case bucket of None \<Rightarrow> [] | Some xs \<Rightarrow> xs)"

text \<open>
  \<open>PMap._get_bucket\<close>, on a vector and on a vector evolver: \<open>hash(key) % len(buckets)\<close>
  raises ZeroDivisionError when there is no bucket, and is not negative otherwise.
\<close>

definition get_bucket ::
  "('k \<Rightarrow> int) \<Rightarrow> ('k, 'v) bucket pvector \<Rightarrow> 'k \<Rightarrow> error + (nat \<times> ('k, 'v) bucket)" where
  "get_bucket hash bs key =
     (if len bs = 0 then Inl ZeroDivisionError
      else (case getitem bs (hash key mod int (len bs)) of
              Inl e \<Rightarrow> Inl e
            | Inr bucket \<Rightarrow> Inr (nat (hash key mod int (len bs)), bucket)))"

definition get_bucket_evolver ::
  "('k \<Rightarrow> int) \<Rightarrow> ('k, 'v) bucket evolver \<Rightarrow> 'k \<Rightarrow> error + (nat \<times> ('k, 'v) bucket)" where
  "get_bucket_evolver hash bs key =
     (if len_evolver bs = 0 then Inl ZeroDivisionError
      else (case getitem_evolver bs (hash key mod int (len_evolver bs)) of
              Inl e \<Rightarrow> Inl e
            | Inr bucket \<Rightarrow> Inr (nat (hash key mod int (len_evolver bs)), bucket)))"

text \<open>The loop \<open>for k, v in bucket: if k == key: return v\<close>.\<close>

fun bucket_find :: "('k \<times> 'v) list \<Rightarrow> 'k \<Rightarrow> 'v option" where
  "bucket_find [] key = None"
| "bucket_find ((k, v) # bucket) key = (if k = key then Some v else bucket_find bucket key)"

text \<open>\<open>PMap._getitem\<close> and \<open>PMap._contains\<close>, on the bucket \<open>_get_bucket\<close> has returned.\<close>

definition getitem_bucket :: "error + (nat \<times> ('k, 'v) bucket) \<Rightarrow> 'k \<Rightarrow> error + 'v" where
  "getitem_bucket r key =
     (case r of
        Inl e \<Rightarrow> Inl e
      | Inr (_, bucket) \<Rightarrow>
          if truthy bucket then
            (case bucket_find (bucket_items bucket) key of Some v \<Rightarrow> Inr v | None \<Rightarrow> Inl KeyError)
          else Inl KeyError)"

definition contains_bucket :: "error + (nat \<times> ('k, 'v) bucket) \<Rightarrow> 'k \<Rightarrow> error + bool" where
  "contains_bucket r key =
     (case r of
        Inl e \<Rightarrow> Inl e
      | Inr (_, bucket) \<Rightarrow>
          if truthy bucket then Inr (bucket_find (bucket_items bucket) key \<noteq> None) else Inr False)"

text \<open>\<open>PMap.__getitem__\<close>, \<open>PMap.__contains__\<close>, \<open>PMap.__len__\<close>, \<open>PMap.iteritems\<close> and
  \<open>PMap.keys\<close>.\<close>

definition getitem_pmap :: "('k \<Rightarrow> int) \<Rightarrow> ('k, 'v) pmap \<Rightarrow> 'k \<Rightarrow> error + 'v" where
  "getitem_pmap hash self key = getitem_bucket (get_bucket hash (buckets self) key) key"

definition contains_pmap :: "('k \<Rightarrow> int) \<Rightarrow> ('k, 'v) pmap \<Rightarrow> 'k \<Rightarrow> error + bool" where
  "contains_pmap hash self key = contains_bucket (get_bucket hash (buckets self) key) key"

definition len_pmap :: "('k, 'v) pmap \<Rightarrow> nat" where
  "len_pmap self = pm_size self"

definition items_of :: "('k, 'v) bucket list \<Rightarrow> ('k \<times> 'v) list" where
  "items_of bs = concat (map bucket_items (filter truthy bs))"

definition iteritems :: "('k, 'v) pmap \<Rightarrow> ('k \<times> 'v) list" where
  "iteritems self = items_of (tolist (buckets self))"

definition keys :: "('k, 'v) pmap \<Rightarrow> 'k list" where
  "keys self = map fst (iteritems self)"

text \<open>
  The test \<open>len(self._buckets_evolver) < 0.67 * self._size\<close> is computed in IEEE double
  arithmetic. The double \<open>0.67\<close> is \<open>6034823500676465 / 2 ^ 53\<close>; the size (below
  \<open>2 ^ 53\<close>) converts exactly; the product is rounded to 53 bits, to nearest with ties
  to even; the comparison of the integer with the double is exact. \<open>times_067 n\<close> is
  \<open>2 ^ 53\<close> times the rounded product.
\<close>

function bit_length :: "int \<Rightarrow> nat" where
  "bit_length n = (if n \<le> 0 then 0 else Suc (bit_length (n div 2)))"
  by pat_completeness auto
termination
  by (relation "measure nat") auto

declare bit_length.simps [simp del]

definition times_067 :: "int \<Rightarrow> int" where
  "times_067 n =
     (let q = 6034823500676465 * n;
          e = bit_length q - 53;
          m = q div 2 ^ e;
          r = q mod 2 ^ e
      in (if 2 * r > 2 ^ e \<or> (2 * r = 2 ^ e \<and> odd m) then m + 1 else m) * 2 ^ e)"

definition load_exceeded :: "nat \<Rightarrow> nat \<Rightarrow> bool" where
  "load_exceeded n_buckets sz \<longleftrightarrow> int n_buckets * 2 ^ 53 < times_067 (int sz)"

subsection \<open>The map evolver\<close>

record ('k, 'v) pmap_evolver =
  buckets_evolver :: "('k, 'v) bucket evolver"
  me_size :: nat
  original_pmap :: "('k, 'v) pmap"

text \<open>\<open>PMap.evolver\<close>, that is \<open>PMap._Evolver.__init__\<close>.\<close>

definition evolver_pmap :: "('k, 'v) pmap \<Rightarrow> ('k, 'v) pmap_evolver" where
  "evolver_pmap original =
     \<lparr>buckets_evolver = evolver (buckets original), me_size = pm_size original,
      original_pmap = original\<rparr>"

text \<open>
  The loop that fills a fresh list of buckets, in \<open>_reallocate\<close> and in \<open>_turbo_mapping\<close>:
  a pair goes to the end of the bucket at \<open>hash(k) % size\<close>. With no bucket at all the
  first pair raises ZeroDivisionError.
\<close>

fun fill_buckets ::
  "('k \<Rightarrow> int) \<Rightarrow> ('k, 'v) bucket list \<Rightarrow> ('k \<times> 'v) list \<Rightarrow> error + ('k, 'v) bucket list" where
  "fill_buckets hash new_list [] = Inr new_list"
| "fill_buckets hash new_list ((k, v) # pairs) =
     (if length new_list = 0 then Inl ZeroDivisionError
      else fill_buckets hash
             (new_list[nat (hash k mod int (length new_list)) :=
                (if truthy (new_list ! nat (hash k mod int (length new_list)))
                 then Some (bucket_items (new_list ! nat (hash k mod int (length new_list))) @ [(k, v)])
                 else Some [(k, v)])])
             pairs)"

text \<open>\<open>PMap._Evolver._reallocate\<close>.\<close>

definition reallocate ::
  "('k \<Rightarrow> int) \<Rightarrow> ('k, 'v) pmap_evolver \<Rightarrow> nat \<Rightarrow> error + ('k, 'v) pmap_evolver" where
  "reallocate hash self new_size =
     (case fill_buckets hash (replicate new_size None)
             (items_of (tolist (fst (persistent (buckets_evolver self))))) of
        Inl e \<Rightarrow> Inl e
      | Inr new_list \<Rightarrow> Inr (self\<lparr>buckets_evolver := evolver (pvector new_list)\<rparr>))"

text \<open>\<open>PMap._Evolver.__setitem__\<close>: the part after the test of the load, on the bucket
  found, and the method itself.\<close>

definition store ::
  "('k, 'v) pmap_evolver \<Rightarrow> nat \<Rightarrow> ('k, 'v) bucket \<Rightarrow> nat \<Rightarrow> error + ('k, 'v) pmap_evolver" where
  "store self index new_bucket new_size =
     (case setitem_evolver (buckets_evolver self) (int index) new_bucket of
        Inl e \<Rightarrow> Inl e
      | Inr be \<Rightarrow> Inr (self\<lparr>buckets_evolver := be, me_size := new_size\<rparr>))"

definition setitem_bucket ::
  "('k, 'v) pmap_evolver \<Rightarrow> 'k \<Rightarrow> 'v \<Rightarrow> nat \<Rightarrow> ('k, 'v) bucket \<Rightarrow> error + ('k, 'v) pmap_evolver" where
  "setitem_bucket self key val index bucket =
     (if truthy bucket then
        (case bucket_find (bucket_items bucket) key of
           Some v \<Rightarrow>
             if v \<noteq> val then
               store self index
                 (Some (map (\<lambda>(k2, v2). if k2 \<noteq> key then (k2, v2) else (k2, val)) (bucket_items bucket)))
                 (me_size self)
             else Inr self
         | None \<Rightarrow> store self index (Some ((key, val) # bucket_items bucket)) (me_size self + 1))
      else store self index (Some [(key, val)]) (me_size self + 1))"

definition setitem_pmap_evolver ::
  "('k \<Rightarrow> int) \<Rightarrow> ('k, 'v) pmap_evolver \<Rightarrow> 'k \<Rightarrow> 'v \<Rightarrow> error + ('k, 'v) pmap_evolver" where
  "setitem_pmap_evolver hash self key val =
     (case (if load_exceeded (len_evolver (buckets_evolver self)) (me_size self)
            then reallocate hash self (2 * len_evolver (buckets_evolver self))
            else Inr self) of
        Inl e \<Rightarrow> Inl e
      | Inr self \<Rightarrow>
          (case get_bucket_evolver hash (buckets_evolver self) key of
             Inl e \<Rightarrow> Inl e
           | Inr (index, bucket) \<Rightarrow> setitem_bucket self key val index bucket))"

text \<open>\<open>PMap._Evolver.is_dirty\<close>, \<open>persistent\<close>, \<open>__getitem__\<close>, \<open>__contains__\<close> and
  \<open>__delitem__\<close>.\<close>

definition is_dirty_pmap_evolver :: "('k, 'v) pmap_evolver \<Rightarrow> bool" where
  "is_dirty_pmap_evolver self = is_dirty (buckets_evolver self)"

definition persistent_pmap_evolver :: "('k, 'v) pmap_evolver \<Rightarrow> ('k, 'v) pmap" where
  "persistent_pmap_evolver self =
     (if is_dirty_pmap_evolver self
      then PMap (me_size self) (fst (persistent (buckets_evolver self)))
      else original_pmap self)"

definition getitem_pmap_evolver :: "('k \<Rightarrow> int) \<Rightarrow> ('k, 'v) pmap_evolver \<Rightarrow> 'k \<Rightarrow> error + 'v" where
  "getitem_pmap_evolver hash self key =
     getitem_bucket (get_bucket_evolver hash (buckets_evolver self) key) key"

definition contains_pmap_evolver :: "('k \<Rightarrow> int) \<Rightarrow> ('k, 'v) pmap_evolver \<Rightarrow> 'k \<Rightarrow> error + bool" where
  "contains_pmap_evolver hash self key =
     contains_bucket (get_bucket_evolver hash (buckets_evolver self) key) key"

definition delitem_pmap_evolver ::
  "('k \<Rightarrow> int) \<Rightarrow> ('k, 'v) pmap_evolver \<Rightarrow> 'k \<Rightarrow> error + ('k, 'v) pmap_evolver" where
  "delitem_pmap_evolver hash self key =
     (case get_bucket_evolver hash (buckets_evolver self) key of
        Inl e \<Rightarrow> Inl e
      | Inr (index, bucket) \<Rightarrow>
          if truthy bucket \<and>
             length (bucket_items bucket) > length (filter (\<lambda>(k, v). k \<noteq> key) (bucket_items bucket))
          then store self index
                 (if filter (\<lambda>(k, v). k \<noteq> key) (bucket_items bucket) \<noteq> []
                  then Some (filter (\<lambda>(k, v). k \<noteq> key) (bucket_items bucket)) else None)
                 (me_size self - 1)
          else Inl KeyError)"

text \<open>\<open>PMap.set\<close>, \<open>PMap.remove\<close> and \<open>PMap.discard\<close>.\<close>

definition set_pmap :: "('k \<Rightarrow> int) \<Rightarrow> ('k, 'v) pmap \<Rightarrow> 'k \<Rightarrow> 'v \<Rightarrow> error + ('k, 'v) pmap" where
  "set_pmap hash self key val =
     (case setitem_pmap_evolver hash (evolver_pmap self) key val of
        Inl e \<Rightarrow> Inl e
      | Inr e \<Rightarrow> Inr (persistent_pmap_evolver e))"



text \<open>
  The host's \<open>dict(initial)\<close> on an iterable of pairs: a key met again keeps its place and
  takes the later value. On the items of a mapping, whose keys are distinct, it changes
  nothing.
\<close>

fun dict_setitem :: "('k \<times> 'v) list \<Rightarrow> 'k \<Rightarrow> 'v \<Rightarrow> ('k \<times> 'v) list" where
  "dict_setitem [] key val = [(key, val)]"
| "dict_setitem ((k, v) # d) key val =
     (if k = key then (k, val) # d else (k, v) # dict_setitem d key val)"

definition dict :: "('k \<times> 'v) list \<Rightarrow> ('k \<times> 'v) list" where
  "dict pairs = foldl (\<lambda>d (k, v). dict_setitem d k v) [] pairs"

text \<open>
  \<open>_turbo_mapping\<close> on the pairs \<open>initial\<close> and a \<open>pre_size\<close> that is not negative, the
  constant \<open>_EMPTY_PMAP\<close>, and \<open>pmap\<close>. The number of buckets is computed from
  \<open>len(initial)\<close> before \<open>initial\<close> is made a dictionary; the pairs stored and the size of
  the map are those of the dictionary. With a negative \<open>pre_size\<close> and items to store,
  \<open>size * [None]\<close> is the empty list and the first \<open>buckets[index]\<close> raises IndexError.
\<close>

definition turbo_mapping :: "('k \<Rightarrow> int) \<Rightarrow> ('k \<times> 'v) list \<Rightarrow> nat \<Rightarrow> ('k, 'v) pmap" where
  "turbo_mapping hash initial pre_size =
     (let sz = (if pre_size \<noteq> 0 then pre_size
                else if 2 * length initial \<noteq> 0 then 2 * length initial else 8)
      in case fill_buckets hash (replicate sz None) (dict initial) of
           Inr bs \<Rightarrow> PMap (length (dict initial)) (pvector bs)
         | Inl e \<Rightarrow> PMap (length (dict initial)) (pvector (replicate sz None)))"

definition EMPTY_PMAP :: "('k, 'v) pmap" where
  "EMPTY_PMAP = turbo_mapping (\<lambda>k. 0) [] 0"

definition pmap :: "('k \<Rightarrow> int) \<Rightarrow> ('k \<times> 'v) list \<Rightarrow> int \<Rightarrow> error + ('k, 'v) pmap" where
  "pmap hash initial pre_size =
     (if initial = [] then Inr EMPTY_PMAP
      else if pre_size < 0 then Inl IndexError
      else Inr (turbo_mapping hash initial (nat pre_size)))"


subsection \<open>What a list of buckets holds\<close>

text \<open>
  \<open>bucket_index hash n key\<close> is \<open>hash(key) % n\<close>. In a list of buckets every pair lies in
  the bucket of its key (\<open>placed\<close>), and \<open>lookup hash bs\<close> is the mapping the list stands
  for: what the search of the bucket of a key finds.
\<close>

definition bucket_index :: "('k \<Rightarrow> int) \<Rightarrow> nat \<Rightarrow> 'k \<Rightarrow> nat" where
  "bucket_index hash n key = nat (hash key mod int n)"

definition placed :: "('k \<Rightarrow> int) \<Rightarrow> ('k, 'v) bucket list \<Rightarrow> bool" where
  "placed hash bs \<longleftrightarrow>
     (\<forall>i<length bs. \<forall>k\<in>fst ` set (bucket_items (bs ! i)). bucket_index hash (length bs) k = i)"

definition lookup :: "('k \<Rightarrow> int) \<Rightarrow> ('k, 'v) bucket list \<Rightarrow> 'k \<Rightarrow> 'v option" where
  "lookup hash bs key = bucket_find (bucket_items (bs ! bucket_index hash (length bs) key)) key"

definition buckets_inv :: "('k \<Rightarrow> int) \<Rightarrow> ('k, 'v) bucket list \<Rightarrow> bool" where
  "buckets_inv hash bs \<longleftrightarrow> bs \<noteq> [] \<and> placed hash bs"

lemma bucket_index_less: "0 < n \<Longrightarrow> bucket_index hash n key < n"
  by (simp add: bucket_index_def nat_less_iff)

lemma bucket_find_map_of: "bucket_find xs key = map_of xs key"
  by (induction xs) auto

lemma bucket_find_None: "bucket_find xs key = None \<longleftrightarrow> key \<notin> fst ` set xs"
  by (simp add: bucket_find_map_of map_of_eq_None_iff)

lemma bucket_find_append:
  "bucket_find (xs @ ys) key = (case bucket_find xs key of None \<Rightarrow> bucket_find ys key | Some v \<Rightarrow> Some v)"
  by (induction xs) auto

lemma bucket_find_filter:
  "(\<And>v. P (key, v)) \<Longrightarrow> bucket_find (filter P xs) key = bucket_find xs key"
  by (induction xs) auto

lemma bucket_find_replace:
  "bucket_find (map (\<lambda>(k2, v2). if k2 \<noteq> key then (k2, v2) else (k2, val)) xs) k =
     (if k = key then (if bucket_find xs key = None then None else Some val) else bucket_find xs k)"
  by (induction xs) (auto split: if_splits)

lemma fst_replace:
  "map fst (map (\<lambda>(k2, v2). if k2 \<noteq> key then (k2, v2) else (k2, val)) xs) = map fst xs"
  by (induction xs) auto

lemma items_of_concat: "items_of bs = concat (map bucket_items bs)"
proof (induction bs)
  case Nil
  then show ?case by (simp add: items_of_def)
next
  case (Cons b bs)
  then show ?case
    by (cases b) (auto simp: items_of_def truthy_def bucket_items_def)
qed

lemma truthy_items: "truthy b \<longleftrightarrow> bucket_items b \<noteq> []"
  by (cases b) (simp_all add: truthy_def bucket_items_def)

lemma bucket_find_concat_placed:
  assumes i: "i < length xss" and other: "\<And>j. j < length xss \<Longrightarrow> j \<noteq> i \<Longrightarrow> key \<notin> fst ` set (xss ! j)"
  shows "bucket_find (concat xss) key = bucket_find (xss ! i) key"
proof -
  have none: "bucket_find (concat yss) key = None" if "\<And>ys. ys \<in> set yss \<Longrightarrow> key \<notin> fst ` set ys" for yss
    using that by (auto simp: bucket_find_None)
  have "key \<notin> fst ` set ys" if "ys \<in> set (take i xss)" for ys
  proof -
    from that obtain j where "j < i" "ys = xss ! j"
      using i by (auto simp: in_set_conv_nth)
    with other [of j] i show ?thesis by simp
  qed
  then have a: "bucket_find (concat (take i xss)) key = None" by (rule none)
  have "key \<notin> fst ` set ys" if "ys \<in> set (drop (Suc i) xss)" for ys
  proof -
    from that obtain j where "j < length xss - Suc i" "ys = xss ! (Suc i + j)"
      by (auto simp: in_set_conv_nth)
    with other [of "Suc i + j"] show ?thesis by simp
  qed
  then have b: "bucket_find (concat (drop (Suc i) xss)) key = None" by (rule none)
  show ?thesis
    by (subst concat_split_at [OF i]) (simp add: bucket_find_append a b split: option.splits)
qed

lemma lookup_items_of:
  assumes "buckets_inv hash bs"
  shows "bucket_find (items_of bs) key = lookup hash bs key"
proof -
  let ?i = "bucket_index hash (length bs) key"
  let ?xss = "map bucket_items bs"
  from assms have ne: "0 < length bs" and pl: "placed hash bs"
    by (simp_all add: buckets_inv_def)
  have i: "?i < length ?xss"
    using bucket_index_less [OF ne] by simp
  have "key \<notin> fst ` set (?xss ! j)" if "j < length ?xss" "j \<noteq> ?i" for j
    using pl that by (auto simp: placed_def)
  from bucket_find_concat_placed [OF i this] i show ?thesis
    by (simp add: items_of_concat lookup_def)
qed


lemma fill_buckets_ok:
  "0 < length bs0 \<Longrightarrow>
   \<exists>bs. fill_buckets hash bs0 pairs = Inr bs \<and> length bs = length bs0 \<and>
     (\<forall>i<length bs0. bucket_items (bs ! i) =
        bucket_items (bs0 ! i) @ filter (\<lambda>(k, v). bucket_index hash (length bs0) k = i) pairs)"
proof (induction pairs arbitrary: bs0)
  case Nil
  then show ?case by simp
next
  case (Cons p pairs)
  obtain k v where p: "p = (k, v)" by (cases p)
  let ?n = "length bs0"
  let ?j = "nat (hash k mod int ?n)"
  let ?b = "if truthy (bs0 ! ?j) then Some (bucket_items (bs0 ! ?j) @ [(k, v)]) else Some [(k, v)]"
  let ?bs1 = "bs0[?j := ?b]"
  have j: "?j < ?n" "?j = bucket_index hash ?n k"
    using Cons.prems bucket_index_less [OF Cons.prems, of hash k] by (simp_all add: bucket_index_def)
  have b: "bucket_items ?b = bucket_items (bs0 ! ?j) @ [(k, v)]"
    by (auto simp: truthy_items) (simp_all add: bucket_items_def)
  have step: "fill_buckets hash bs0 (p # pairs) = fill_buckets hash ?bs1 pairs"
    using Cons.prems by (simp add: p)
  from Cons.prems have "0 < length ?bs1" by simp
  from Cons.IH [OF this] obtain bs where
    bs: "fill_buckets hash ?bs1 pairs = Inr bs" "length bs = ?n"
      "\<And>i. i < ?n \<Longrightarrow> bucket_items (bs ! i) =
         bucket_items (?bs1 ! i) @ filter (\<lambda>(k, v). bucket_index hash ?n k = i) pairs"
    by auto
  have "bucket_items (bs ! i) =
      bucket_items (bs0 ! i) @ filter (\<lambda>(k, v). bucket_index hash ?n k = i) (p # pairs)"
    if "i < ?n" for i
  proof (cases "i = ?j")
    case True
    with bs(3) [OF that] that b j(2) show ?thesis by (simp add: p)
  next
    case False
    with bs(3) [OF that] that j(2) show ?thesis by (simp add: p)
  qed
  with bs(1,2) step show ?case by simp
qed

lemma fill_buckets_fresh:
  assumes n: "0 < n"
  shows "\<exists>bs. fill_buckets hash (replicate n None) pairs = Inr bs \<and> length bs = n \<and>
           buckets_inv hash bs \<and> (\<forall>key. lookup hash bs key = bucket_find pairs key) \<and>
           (\<forall>i<n. bucket_items (bs ! i) = filter (\<lambda>(k, v). bucket_index hash n k = i) pairs)"
proof -
  from n have "0 < length (replicate n (None :: ('a, 'b) bucket))" by simp
  from fill_buckets_ok [OF this, of hash pairs] obtain bs where
    bs: "fill_buckets hash (replicate n None) pairs = Inr bs" "length bs = n"
      "\<And>i. i < n \<Longrightarrow> bucket_items (bs ! i) = filter (\<lambda>(k, v). bucket_index hash n k = i) pairs"
    by (auto simp: bucket_items_def)
  have "buckets_inv hash bs"
    using n bs(2,3) by (auto simp: buckets_inv_def placed_def)
  moreover have "lookup hash bs key = bucket_find pairs key" for key
    using bs(3) [OF bucket_index_less [OF n], of hash key] bs(2)
    by (simp add: lookup_def) (rule bucket_find_filter, simp)
  ultimately show ?thesis
    using bs by (intro exI [of _ bs]) simp
qed


subsection \<open>The map operations on well-formed maps\<close>

definition mev_buckets :: "('k, 'v) pmap_evolver \<Rightarrow> ('k, 'v) bucket list" where
  "mev_buckets e = ev_list (buckets_evolver e)"

definition mev_inv :: "('k \<Rightarrow> int) \<Rightarrow> ('k, 'v) pmap_evolver \<Rightarrow> bool" where
  "mev_inv hash e \<longleftrightarrow> evolver_inv (buckets_evolver e) \<and> buckets_inv hash (mev_buckets e)"

definition pmap_inv :: "('k \<Rightarrow> int) \<Rightarrow> ('k, 'v) pmap \<Rightarrow> bool" where
  "pmap_inv hash m \<longleftrightarrow> pvector_inv (buckets m) \<and> buckets_inv hash (tolist (buckets m))"

lemma setitem_evolver_in_range:
  assumes inv: "evolver_inv e" and k: "k < len_evolver e"
  shows "\<exists>e'. setitem_evolver e (int k) x = Inr e' \<and> evolver_inv e' \<and> is_dirty e' \<and>
           ev_list e' = (ev_list e)[k := x] \<and> len_evolver e' = len_evolver e"
proof (cases "k < e_count e")
  case True
  then show ?thesis
    using setitem_evolver_inside [OF inv, of "int k" x] by simp
next
  case False
  then show ?thesis
    using setitem_evolver_extra [OF inv, of "int k" x] k by simp
qed

lemma mev_length: "mev_inv hash e \<Longrightarrow> length (mev_buckets e) = len_evolver (buckets_evolver e)"
  by (simp add: mev_inv_def mev_buckets_def length_ev_list)

lemma mev_nonempty: "mev_inv hash e \<Longrightarrow> 0 < len_evolver (buckets_evolver e)"
proof -
  assume inv: "mev_inv hash e"
  then have "mev_buckets e \<noteq> []" by (simp add: mev_inv_def buckets_inv_def)
  then have "0 < length (mev_buckets e)" by simp
  then show ?thesis by (simp only: mev_length [OF inv])
qed

lemma get_bucket_evolver_ok:
  assumes inv: "mev_inv hash e"
  shows "get_bucket_evolver hash (buckets_evolver e) key =
     Inr (bucket_index hash (length (mev_buckets e)) key,
          mev_buckets e ! bucket_index hash (length (mev_buckets e)) key)"
proof -
  let ?be = "buckets_evolver e"
  let ?n = "len_evolver ?be"
  from inv have einv: "evolver_inv ?be" by (simp add: mev_inv_def)
  note n = mev_nonempty [OF inv]
  have i: "0 \<le> hash key mod int ?n" "hash key mod int ?n < int ?n"
    using n by simp_all
  have len: "length (ev_list ?be) = ?n"
    by (rule length_ev_list [OF einv])
  from getitem_evolver_inside [OF einv i] n show ?thesis
    by (simp add: get_bucket_evolver_def bucket_index_def mev_buckets_def len)
qed

lemma store_ok:
  assumes inv: "mev_inv hash e"
    and index: "index = bucket_index hash (length (mev_buckets e)) key"
    and ks: "fst ` set (bucket_items nb) \<subseteq> insert key (fst ` set (bucket_items (mev_buckets e ! index)))"
  shows "\<exists>e'. store e index nb sz = Inr e' \<and> mev_inv hash e' \<and>
           mev_buckets e' = (mev_buckets e)[index := nb] \<and> is_dirty (buckets_evolver e') \<and>
           me_size e' = sz \<and> original_pmap e' = original_pmap e"
proof -
  let ?be = "buckets_evolver e"
  let ?bs = "mev_buckets e"
  from inv have einv: "evolver_inv ?be" and pl: "placed hash ?bs" and ne: "?bs \<noteq> []"
    by (simp_all add: mev_inv_def buckets_inv_def)
  note n = mev_nonempty [OF inv]
  have lt: "index < len_evolver ?be"
    unfolding index mev_length [OF inv] by (rule bucket_index_less [OF n])
  from setitem_evolver_in_range [OF einv lt, of nb] obtain be' where
    be': "setitem_evolver ?be (int index) nb = Inr be'" "evolver_inv be'" "is_dirty be'"
      "ev_list be' = ?bs[index := nb]" "len_evolver be' = len_evolver ?be"
    by (auto simp: mev_buckets_def)
  let ?e' = "e\<lparr>buckets_evolver := be', me_size := sz\<rparr>"
  have res: "store e index nb sz = Inr ?e'"
    by (simp add: store_def be'(1))
  have "placed hash (?bs[index := nb])"
    unfolding placed_def
  proof (intro allI impI ballI)
    fix i k
    assume i: "i < length (?bs[index := nb])" and k: "k \<in> fst ` set (bucket_items (?bs[index := nb] ! i))"
    show "bucket_index hash (length (?bs[index := nb])) k = i"
    proof (cases "i = index")
      case True
      with i k ks have "k = key \<or> k \<in> fst ` set (bucket_items (?bs ! index))" by auto
      then show ?thesis
        using pl True i index by (auto simp: placed_def)
    next
      case False
      with i k pl show ?thesis by (auto simp: placed_def)
    qed
  qed
  with ne be'(2,4) have "mev_inv hash ?e'"
    by (simp add: mev_inv_def buckets_inv_def mev_buckets_def)
  with res be'(3,4) show ?thesis
    by (auto simp: mev_buckets_def)
qed

lemma lookup_update:
  assumes n: "0 < length bs" and index: "index = bucket_index hash (length bs) key"
    and nb: "\<And>k. bucket_index hash (length bs) k = index \<Longrightarrow>
      bucket_find (bucket_items nb) k = (if k = key then Some val else bucket_find (bucket_items (bs ! index)) k)"
  shows "lookup hash (bs[index := nb]) k = (if k = key then Some val else lookup hash bs k)"
proof (cases "bucket_index hash (length bs) k = index")
  case True
  with nb [OF True] n index show ?thesis
    using bucket_index_less [OF n, of hash key] by (simp add: lookup_def)
next
  case False
  with index have "k \<noteq> key" by auto
  with False show ?thesis by (simp add: lookup_def)
qed

lemma setitem_bucket_ok:
  assumes inv: "mev_inv hash e"
    and index: "index = bucket_index hash (length (mev_buckets e)) key"
    and bucket: "bucket = mev_buckets e ! index"
  shows "\<exists>e'. setitem_bucket e key val index bucket = Inr e' \<and> mev_inv hash e' \<and>
           (\<forall>k. lookup hash (mev_buckets e') k = (if k = key then Some val else lookup hash (mev_buckets e) k)) \<and>
           length (mev_buckets e') = length (mev_buckets e) \<and>
           original_pmap e' = original_pmap e \<and>
           (lookup hash (mev_buckets e) key = Some val \<longrightarrow> e' = e) \<and>
           (lookup hash (mev_buckets e) key \<noteq> Some val \<longrightarrow> is_dirty (buckets_evolver e')) \<and>
           me_size e' = (if lookup hash (mev_buckets e) key = None then me_size e + 1 else me_size e)"
proof -
  let ?bs = "mev_buckets e"
  let ?items = "bucket_items bucket"
  from inv have n: "0 < length ?bs"
    by (simp add: mev_inv_def buckets_inv_def)
  have lk: "lookup hash ?bs key = bucket_find ?items key"
    by (simp add: lookup_def index bucket)
  have via_store: "\<exists>e'. store e index nb sz = Inr e' \<and> mev_inv hash e' \<and>
           (\<forall>k. lookup hash (mev_buckets e') k = (if k = key then Some val else lookup hash ?bs k)) \<and>
           length (mev_buckets e') = length ?bs \<and> original_pmap e' = original_pmap e \<and>
           is_dirty (buckets_evolver e') \<and> me_size e' = sz"
    if ks: "fst ` set (bucket_items nb) \<subseteq> insert key (fst ` set ?items)"
      and nb: "\<And>k. bucket_find (bucket_items nb) k = (if k = key then Some val else bucket_find ?items k)"
    for nb sz
  proof -
    from store_ok [OF inv index, of nb sz] ks obtain e' where
      e': "store e index nb sz = Inr e'" "mev_inv hash e'" "mev_buckets e' = ?bs[index := nb]"
        "is_dirty (buckets_evolver e')" "original_pmap e' = original_pmap e" "me_size e' = sz"
      by (auto simp: bucket)
    have "lookup hash (?bs[index := nb]) k = (if k = key then Some val else lookup hash ?bs k)" for k
      by (rule lookup_update [OF n index]) (simp add: nb bucket)
    with e' show ?thesis by auto
  qed
  show ?thesis
  proof (cases "truthy bucket")
    case False
    then have empty: "?items = []" by (simp add: truthy_items)
    have "\<exists>e'. store e index (Some [(key, val)]) (me_size e + 1) = Inr e' \<and> mev_inv hash e' \<and>
           (\<forall>k. lookup hash (mev_buckets e') k = (if k = key then Some val else lookup hash ?bs k)) \<and>
           length (mev_buckets e') = length ?bs \<and> original_pmap e' = original_pmap e \<and>
           is_dirty (buckets_evolver e') \<and> me_size e' = me_size e + 1"
      by (rule via_store) (simp_all add: bucket_items_def [of "Some _"] empty)
    with False lk empty show ?thesis
      by (auto simp: setitem_bucket_def)
  next
    case True
    show ?thesis
    proof (cases "bucket_find ?items key")
      case None
      have "\<exists>e'. store e index (Some ((key, val) # ?items)) (me_size e + 1) = Inr e' \<and> mev_inv hash e' \<and>
           (\<forall>k. lookup hash (mev_buckets e') k = (if k = key then Some val else lookup hash ?bs k)) \<and>
           length (mev_buckets e') = length ?bs \<and> original_pmap e' = original_pmap e \<and>
           is_dirty (buckets_evolver e') \<and> me_size e' = me_size e + 1"
        by (rule via_store) (auto simp: bucket_items_def [of "Some _"])
      with True None lk show ?thesis
        by (auto simp: setitem_bucket_def)
    next
      case (Some v)
      show ?thesis
      proof (cases "v = val")
        case same: True
        have "lookup hash ?bs k = (if k = key then Some val else lookup hash ?bs k)" for k
          using lk Some same by simp
        with True Some same inv lk show ?thesis
          by (auto simp: setitem_bucket_def)
      next
        case False
        let ?nb = "Some (map (\<lambda>(k2, v2). if k2 \<noteq> key then (k2, v2) else (k2, val)) ?items)"
        have "\<exists>e'. store e index ?nb (me_size e) = Inr e' \<and> mev_inv hash e' \<and>
           (\<forall>k. lookup hash (mev_buckets e') k = (if k = key then Some val else lookup hash ?bs k)) \<and>
           length (mev_buckets e') = length ?bs \<and> original_pmap e' = original_pmap e \<and>
           is_dirty (buckets_evolver e') \<and> me_size e' = me_size e"
        proof (rule via_store)
          have "set (map fst (bucket_items ?nb)) = set (map fst ?items)"
            by (simp only: bucket_items_def [of "Some _"] option.case fst_replace)
          then have "fst ` set (bucket_items ?nb) = fst ` set ?items"
            by (simp only: set_map)
          then show "fst ` set (bucket_items ?nb) \<subseteq> insert key (fst ` set ?items)" by auto
          show "bucket_find (bucket_items ?nb) k = (if k = key then Some val else bucket_find ?items k)" for k
            using Some by (simp add: bucket_items_def [of "Some _"] bucket_find_replace)
        qed
        with True Some False lk show ?thesis
          by (auto simp: setitem_bucket_def)
      qed
    qed
  qed
qed

lemma evolver_of_vector:
  assumes "pvector_inv v"
  shows "evolver_inv (evolver v)" and "ev_list (evolver v) = tolist v"
    and "\<not> is_dirty (evolver v)" and "len_evolver (evolver v) = count v"
  using assms by (simp_all add: evolver_def reset_inv ev_list_reset is_dirty_reset len_evolver_reset)

lemma reallocate_ok:
  assumes inv: "mev_inv hash e"
  shows "\<exists>e'. reallocate hash e (2 * len_evolver (buckets_evolver e)) = Inr e' \<and> mev_inv hash e' \<and>
           (\<forall>k. lookup hash (mev_buckets e') k = lookup hash (mev_buckets e) k) \<and>
           length (mev_buckets e') = 2 * length (mev_buckets e) \<and>
           \<not> is_dirty (buckets_evolver e') \<and> original_pmap e' = original_pmap e \<and>
           me_size e' = me_size e"
proof -
  let ?be = "buckets_evolver e"
  let ?bs = "mev_buckets e"
  let ?n = "2 * len_evolver ?be"
  from inv have einv: "evolver_inv ?be" and binv: "buckets_inv hash ?bs"
    by (simp_all add: mev_inv_def)
  have items: "items_of (tolist (fst (persistent ?be))) = items_of ?bs"
    by (simp add: persistent_inv(2) [OF einv] mev_buckets_def)
  from mev_nonempty [OF inv] have n: "0 < ?n" by simp
  from fill_buckets_fresh [OF n, of hash "items_of ?bs"] obtain bs' where
    bs': "fill_buckets hash (replicate ?n None) (items_of ?bs) = Inr bs'" "length bs' = ?n"
      "buckets_inv hash bs'" "\<And>key. lookup hash bs' key = bucket_find (items_of ?bs) key"
    by blast
  let ?e' = "e\<lparr>buckets_evolver := evolver (pvector bs')\<rparr>"
  have res: "reallocate hash e ?n = Inr ?e'"
    by (simp add: reallocate_def items bs'(1))
  note ev = evolver_of_vector [OF pvector_inv, of bs']
  have mb: "mev_buckets ?e' = bs'"
    by (simp add: mev_buckets_def ev(2) tolist_pvector)
  have a: "mev_inv hash ?e'"
    using ev(1) bs'(3) by (simp add: mev_inv_def mb) 
  have b: "\<forall>k. lookup hash (mev_buckets ?e') k = lookup hash ?bs k"
    by (simp add: mb bs'(4) lookup_items_of [OF binv])
  have c: "length (mev_buckets ?e') = 2 * length ?bs"
    by (simp add: mb bs'(2) mev_length [OF inv])
  have d: "\<not> is_dirty (buckets_evolver ?e')"
    using ev(3) by simp
  have e: "original_pmap ?e' = original_pmap e" "me_size ?e' = me_size e"
    by simp_all
  from res a b c d e show ?thesis
    by (intro exI [of _ ?e'] conjI)
qed

lemma setitem_pmap_evolver_ok:
  assumes inv: "mev_inv hash e"
  shows "\<exists>e'. setitem_pmap_evolver hash e key val = Inr e' \<and> mev_inv hash e' \<and>
           (\<forall>k. lookup hash (mev_buckets e') k = (if k = key then Some val else lookup hash (mev_buckets e) k)) \<and>
           (length (mev_buckets e') = length (mev_buckets e) \<or>
            length (mev_buckets e') = 2 * length (mev_buckets e)) \<and>
           original_pmap e' = original_pmap e \<and>
           (lookup hash (mev_buckets e) key \<noteq> Some val \<longrightarrow> is_dirty (buckets_evolver e')) \<and>
           (lookup hash (mev_buckets e) key = Some val \<and> \<not> is_dirty (buckets_evolver e) \<longrightarrow>
              \<not> is_dirty (buckets_evolver e')) \<and>
           me_size e' = (if lookup hash (mev_buckets e) key = None then me_size e + 1 else me_size e)"
proof -
  define e1 where "e1 = (if load_exceeded (len_evolver (buckets_evolver e)) (me_size e)
      then reallocate hash e (2 * len_evolver (buckets_evolver e)) else Inr e)"
  have "\<exists>e2. e1 = Inr e2 \<and> mev_inv hash e2 \<and>
      (\<forall>k. lookup hash (mev_buckets e2) k = lookup hash (mev_buckets e) k) \<and>
      (length (mev_buckets e2) = length (mev_buckets e) \<or>
       length (mev_buckets e2) = 2 * length (mev_buckets e)) \<and>
      original_pmap e2 = original_pmap e \<and>
      (\<not> is_dirty (buckets_evolver e) \<longrightarrow> \<not> is_dirty (buckets_evolver e2)) \<and>
      me_size e2 = me_size e"
  proof (cases "load_exceeded (len_evolver (buckets_evolver e)) (me_size e)")
    case True
    with reallocate_ok [OF inv] show ?thesis by (auto simp: e1_def)
  next
    case False
    with inv show ?thesis by (simp add: e1_def)
  qed
  then obtain e2 where e2: "e1 = Inr e2" "mev_inv hash e2"
    "\<And>k. lookup hash (mev_buckets e2) k = lookup hash (mev_buckets e) k"
    "length (mev_buckets e2) = length (mev_buckets e) \<or>
     length (mev_buckets e2) = 2 * length (mev_buckets e)"
    "original_pmap e2 = original_pmap e"
    "\<not> is_dirty (buckets_evolver e) \<longrightarrow> \<not> is_dirty (buckets_evolver e2)"
    "me_size e2 = me_size e"
    by blast
  let ?i = "bucket_index hash (length (mev_buckets e2)) key"
  have res: "setitem_pmap_evolver hash e key val =
      setitem_bucket e2 key val ?i (mev_buckets e2 ! ?i)"
    using e2(1) by (simp add: setitem_pmap_evolver_def e1_def [symmetric] get_bucket_evolver_ok [OF e2(2)])
  from setitem_bucket_ok [OF e2(2) refl refl, of key val] obtain e' where
    e': "setitem_bucket e2 key val ?i (mev_buckets e2 ! ?i) = Inr e'" "mev_inv hash e'"
      "\<And>k. lookup hash (mev_buckets e') k = (if k = key then Some val else lookup hash (mev_buckets e2) k)"
      "length (mev_buckets e') = length (mev_buckets e2)"
      "original_pmap e' = original_pmap e2"
      "lookup hash (mev_buckets e2) key = Some val \<longrightarrow> e' = e2"
      "lookup hash (mev_buckets e2) key \<noteq> Some val \<longrightarrow> is_dirty (buckets_evolver e')"
      "me_size e' = (if lookup hash (mev_buckets e2) key = None then me_size e2 + 1 else me_size e2)"
    by blast
  show ?thesis
    using res e' e2(2-) by (intro exI [of _ e']) (auto simp: e2(3))
qed

text \<open>The mapping a map stands for.\<close>

definition lookup_pmap :: "('k \<Rightarrow> int) \<Rightarrow> ('k, 'v) pmap \<Rightarrow> 'k \<Rightarrow> 'v option" where
  "lookup_pmap hash m = lookup hash (tolist (buckets m))"

lemma evolver_pmap_inv:
  assumes "pmap_inv hash m"
  shows "mev_inv hash (evolver_pmap m)" and "mev_buckets (evolver_pmap m) = tolist (buckets m)"
    and "\<not> is_dirty (buckets_evolver (evolver_pmap m))" and "original_pmap (evolver_pmap m) = m"
    and "me_size (evolver_pmap m) = pm_size m"
  using assms evolver_of_vector [of "buckets m"]
  by (simp_all add: pmap_inv_def mev_inv_def mev_buckets_def evolver_pmap_def)

lemma persistent_pmap_evolver_dirty:
  assumes inv: "mev_inv hash e" and d: "is_dirty (buckets_evolver e)"
  shows "pmap_inv hash (persistent_pmap_evolver e)"
    and "tolist (buckets (persistent_pmap_evolver e)) = mev_buckets e"
    and "pm_size (persistent_pmap_evolver e) = me_size e"
proof -
  from inv have einv: "evolver_inv (buckets_evolver e)" and binv: "buckets_inv hash (mev_buckets e)"
    by (simp_all add: mev_inv_def)
  have res: "persistent_pmap_evolver e = PMap (me_size e) (fst (persistent (buckets_evolver e)))"
    using d by (simp add: persistent_pmap_evolver_def is_dirty_pmap_evolver_def)
  show "tolist (buckets (persistent_pmap_evolver e)) = mev_buckets e"
    by (simp add: res persistent_inv(2) [OF einv] mev_buckets_def)
  with binv persistent_inv(1) [OF einv] show "pmap_inv hash (persistent_pmap_evolver e)"
    by (simp add: pmap_inv_def res)
  show "pm_size (persistent_pmap_evolver e) = me_size e"
    by (simp add: res)
qed

lemma set_pmap_ok:
  assumes inv: "pmap_inv hash m"
  shows "\<exists>m'. set_pmap hash m key val = Inr m' \<and> pmap_inv hash m' \<and>
           (\<forall>k. lookup_pmap hash m' k = (if k = key then Some val else lookup_pmap hash m k)) \<and>
           (len (buckets m') = len (buckets m) \<or> len (buckets m') = 2 * len (buckets m)) \<and>
           (lookup_pmap hash m key = Some val \<longrightarrow> m' = m) \<and>
           pm_size m' = (if lookup_pmap hash m key = None then pm_size m + 1 else pm_size m)"
proof -
  note e0 = evolver_pmap_inv [OF inv]
  note s = setitem_pmap_evolver_ok [OF e0(1), of key val, unfolded e0(2) e0(4) e0(5), folded lookup_pmap_def]
  from s e0(3) obtain e' where
    e': "setitem_pmap_evolver hash (evolver_pmap m) key val = Inr e'" "mev_inv hash e'"
      "\<And>k. lookup hash (mev_buckets e') k = (if k = key then Some val else lookup_pmap hash m k)"
      "length (mev_buckets e') = length (tolist (buckets m)) \<or>
       length (mev_buckets e') = 2 * length (tolist (buckets m))"
      "original_pmap e' = m"
      "lookup_pmap hash m key \<noteq> Some val \<longrightarrow> is_dirty (buckets_evolver e')"
      "lookup_pmap hash m key = Some val \<longrightarrow> \<not> is_dirty (buckets_evolver e')"
      "me_size e' = (if lookup_pmap hash m key = None then pm_size m + 1 else pm_size m)"
    by blast
  have res: "set_pmap hash m key val = Inr (persistent_pmap_evolver e')"
    by (simp add: set_pmap_def e'(1))
  from inv have lenm: "length (tolist (buckets m)) = len (buckets m)"
    by (simp add: pmap_inv_def length_tolist len_def)
  show ?thesis
  proof (cases "is_dirty (buckets_evolver e')")
    case True
    note p = persistent_pmap_evolver_dirty [OF e'(2) True]
    from p(1) have "length (tolist (buckets (persistent_pmap_evolver e'))) = len (buckets (persistent_pmap_evolver e'))"
      by (simp add: pmap_inv_def length_tolist len_def)
    then have len': "length (mev_buckets e') = len (buckets (persistent_pmap_evolver e'))"
      by (simp only: p(2))
    have lk: "lookup_pmap hash (persistent_pmap_evolver e') k = (if k = key then Some val else lookup_pmap hash m k)" for k
      by (simp only: lookup_pmap_def [of hash "persistent_pmap_evolver e'"] p(2) e'(3))
    have nd: "lookup_pmap hash m key \<noteq> Some val"
      using e'(7) True by blast
    from e'(4) have "len (buckets (persistent_pmap_evolver e')) = len (buckets m) \<or>
        len (buckets (persistent_pmap_evolver e')) = 2 * len (buckets m)"
      by (simp only: len' lenm)
    with res p(1) p(3) lk nd e'(8) show ?thesis
      by (intro exI [of _ "persistent_pmap_evolver e'"]) simp
  next
    case False
    then have same: "persistent_pmap_evolver e' = m"
      by (simp add: persistent_pmap_evolver_def is_dirty_pmap_evolver_def e'(5))
    from False e'(6) have "lookup_pmap hash m key = Some val" by auto
    with same res inv show ?thesis
      by (intro exI [of _ m]) simp
  qed
qed

lemma getitem_pmap_ok:
  assumes inv: "pmap_inv hash m"
  shows "getitem_pmap hash m key =
     (case lookup_pmap hash m key of Some v \<Rightarrow> Inr v | None \<Rightarrow> Inl KeyError)"
proof -
  let ?bs = "tolist (buckets m)"
  from inv have vinv: "pvector_inv (buckets m)" and ne: "?bs \<noteq> []"
    by (simp_all add: pmap_inv_def buckets_inv_def)
  have len: "length ?bs = count (buckets m)"
    by (rule length_tolist [OF vinv])
  from ne have "0 < length ?bs" by simp
  then have n: "0 < count (buckets m)" by (simp only: len)
  have i: "0 \<le> hash key mod int (count (buckets m))"
    "hash key mod int (count (buckets m)) < int (count (buckets m))"
    using n by simp_all
  let ?b = "?bs ! bucket_index hash (length ?bs) key"
  from getitem_nonneg [OF vinv i] n have gb: "get_bucket hash (buckets m) key =
      Inr (bucket_index hash (length ?bs) key, ?b)"
    by (simp add: get_bucket_def len_def bucket_index_def len)
  show ?thesis
  proof (cases "truthy ?b")
    case True
    then show ?thesis
      by (simp add: getitem_pmap_def gb getitem_bucket_def lookup_pmap_def lookup_def)
  next
    case False
    then have "bucket_items ?b = []" by (simp add: truthy_items)
    with False show ?thesis
      by (simp add: getitem_pmap_def gb getitem_bucket_def lookup_pmap_def lookup_def)
  qed
qed

lemma dict_setitem_map_of: "map_of (dict_setitem d key val) = (map_of d)(key \<mapsto> val)"
  by (induction d key val rule: dict_setitem.induct) auto

lemma dict_setitem_keys: "fst ` set (dict_setitem d key val) = insert key (fst ` set d)"
  by (induction d key val rule: dict_setitem.induct) auto

lemma dict_setitem_distinct:
  "distinct (map fst d) \<Longrightarrow> distinct (map fst (dict_setitem d key val))"
  by (induction d key val rule: dict_setitem.induct) (auto simp: dict_setitem_keys)

lemma dict_setitem_fresh: "key \<notin> fst ` set d \<Longrightarrow> dict_setitem d key val = d @ [(key, val)]"
  by (induction d key val rule: dict_setitem.induct) auto

lemma dict_foldl:
  "distinct (map fst d) \<Longrightarrow>
   distinct (map fst (foldl (\<lambda>d (k, v). dict_setitem d k v) d pairs)) \<and>
   map_of (foldl (\<lambda>d (k, v). dict_setitem d k v) d pairs) = map_of d ++ map_of (rev pairs)"
proof (induction pairs arbitrary: d)
  case Nil
  then show ?case by simp
next
  case (Cons p pairs)
  obtain k v where p: "p = (k, v)" by (cases p)
  from Cons.prems have "distinct (map fst (dict_setitem d k v))"
    by (rule dict_setitem_distinct)
  from Cons.IH [OF this] show ?case
    by (simp add: p dict_setitem_map_of map_add_def fun_eq_iff split: option.splits)
qed

lemma dict_distinct: "distinct (map fst (dict pairs))"
  using dict_foldl [of "[]" pairs] by (simp add: dict_def)


lemma dict_of_distinct:
  assumes "distinct (map fst pairs)"
  shows "dict pairs = pairs"
proof -
  have "distinct (map fst (d @ pairs)) \<Longrightarrow>
      foldl (\<lambda>d (k, v). dict_setitem d k v) d pairs = d @ pairs" for d
  proof (induction pairs arbitrary: d)
    case Nil
    then show ?case by simp
  next
    case (Cons p pairs)
    obtain k v where p: "p = (k, v)" by (cases p)
    from Cons.prems have "k \<notin> fst ` set d" by (auto simp: p)
    then have s: "dict_setitem d k v = d @ [(k, v)]" by (rule dict_setitem_fresh)
    from Cons.prems have "distinct (map fst ((d @ [(k, v)]) @ pairs))" by (simp add: p)
    from Cons.IH [OF this] show ?case by (simp add: p s)
  qed
  from this [of "[]"] assms show ?thesis by (simp add: dict_def)
qed

lemma dict_Nil: "dict [] = []"
  by (simp add: dict_def)


lemma EMPTY_PMAP_buckets: "EMPTY_PMAP = PMap 0 (pvector (replicate 8 None))"
  by (simp add: EMPTY_PMAP_def turbo_mapping_def dict_Nil)

lemma EMPTY_PMAP_inv: "pmap_inv hash EMPTY_PMAP"
  by (simp add: EMPTY_PMAP_buckets pmap_inv_def pvector_inv tolist_pvector buckets_inv_def
      placed_def bucket_items_def)

lemma lookup_EMPTY_PMAP: "lookup_pmap hash EMPTY_PMAP key = None"
  using bucket_index_less [of 8 hash key]
  by (simp add: EMPTY_PMAP_buckets lookup_pmap_def tolist_pvector lookup_def bucket_items_def)

lemma len_EMPTY_PMAP: "len (buckets EMPTY_PMAP) = 8"
  by (simp add: EMPTY_PMAP_buckets len_def count_pvector)

subsection \<open>Sequences of operations on a map\<close>

text \<open>
  \<open>set_all\<close> applies \<open>m.set(key, val)\<close> for the pairs of a list in order, each call on the
  map the one before returned; \<open>setitem_all\<close> does \<open>e[key] = val\<close> for the same pairs on one
  evolver.
\<close>

fun set_all :: "('k \<Rightarrow> int) \<Rightarrow> ('k, 'v) pmap \<Rightarrow> ('k \<times> 'v) list \<Rightarrow> error + ('k, 'v) pmap" where
  "set_all hash m [] = Inr m"
| "set_all hash m ((key, val) # ops) =
     (case set_pmap hash m key val of Inl e \<Rightarrow> Inl e | Inr m' \<Rightarrow> set_all hash m' ops)"

fun setitem_all ::
  "('k \<Rightarrow> int) \<Rightarrow> ('k, 'v) pmap_evolver \<Rightarrow> ('k \<times> 'v) list \<Rightarrow> error + ('k, 'v) pmap_evolver" where
  "setitem_all hash e [] = Inr e"
| "setitem_all hash e ((key, val) # ops) =
     (case setitem_pmap_evolver hash e key val of
        Inl err \<Rightarrow> Inl err
      | Inr e' \<Rightarrow> setitem_all hash e' ops)"

lemma lookup_pmap_map_of:
  assumes "pmap_inv hash m"
  shows "lookup_pmap hash m = map_of (items_of (tolist (buckets m)))"
  using assms lookup_items_of [of hash "tolist (buckets m)"]
  by (simp add: pmap_inv_def lookup_pmap_def fun_eq_iff bucket_find_map_of)

lemma finite_dom_lookup_pmap:
  assumes "pmap_inv hash m"
  shows "finite (dom (lookup_pmap hash m))"
  by (simp add: lookup_pmap_map_of [OF assms] finite_dom_map_of)

lemma set_all_ok:
  assumes "pmap_inv hash m"
  shows "\<exists>m'. set_all hash m ops = Inr m' \<and> pmap_inv hash m' \<and>
           lookup_pmap hash m' = lookup_pmap hash m ++ map_of (rev ops) \<and>
           (\<exists>j. len (buckets m') = len (buckets m) * 2 ^ j) \<and>
           pm_size m' = pm_size m + card (fst ` set ops - dom (lookup_pmap hash m))"
  using assms
proof (induction ops arbitrary: m)
  case Nil
  then show ?case
    by (auto intro: exI [of _ 0])
next
  case (Cons p ops)
  obtain key val where p: "p = (key, val)" by (cases p)
  let ?L = "lookup_pmap hash m"
  from set_pmap_ok [OF Cons.prems, of key val] obtain m1 where
    m1: "set_pmap hash m key val = Inr m1" "pmap_inv hash m1"
      "\<And>k. lookup_pmap hash m1 k = (if k = key then Some val else ?L k)"
      "len (buckets m1) = len (buckets m) \<or> len (buckets m1) = 2 * len (buckets m)"
      "pm_size m1 = (if ?L key = None then pm_size m + 1 else pm_size m)"
    by blast
  from Cons.IH [OF m1(2)] obtain m' j where
    m': "set_all hash m1 ops = Inr m'" "pmap_inv hash m'"
      "lookup_pmap hash m' = lookup_pmap hash m1 ++ map_of (rev ops)"
      "len (buckets m') = len (buckets m1) * 2 ^ j"
      "pm_size m' = pm_size m1 + card (fst ` set ops - dom (lookup_pmap hash m1))"
    by blast
  have L1: "lookup_pmap hash m1 = ?L(key \<mapsto> val)"
    by (simp add: fun_eq_iff m1(3))
  have a: "set_all hash m (p # ops) = Inr m'"
    by (simp add: p m1(1) m'(1))
  have b: "lookup_pmap hash m' = ?L ++ map_of (rev (p # ops))"
    by (simp add: m'(3) L1 p fun_eq_iff map_add_def split: option.splits)
  from m1(4) have c: "\<exists>j. len (buckets m') = len (buckets m) * 2 ^ j"
  proof
    assume "len (buckets m1) = len (buckets m)"
    with m'(4) show ?thesis by auto
  next
    assume "len (buckets m1) = 2 * len (buckets m)"
    with m'(4) have "len (buckets m') = len (buckets m) * 2 ^ Suc j" by simp
    then show ?thesis by blast
  qed
  have fin: "finite (fst ` set ops - insert key (dom ?L))" by simp
  have d: "pm_size m' = pm_size m + card (fst ` set (p # ops) - dom ?L)"
  proof (cases "?L key")
    case None
    then have k: "key \<notin> dom ?L" by auto
    then have "fst ` set (p # ops) - dom ?L = insert key (fst ` set ops - insert key (dom ?L))"
      by (auto simp: p)
    then have "card (fst ` set (p # ops) - dom ?L) = Suc (card (fst ` set ops - insert key (dom ?L)))"
      using fin by simp
    with None show ?thesis
      by (simp add: m'(5) m1(5) L1)
  next
    case (Some v)
    then have k: "insert key (dom ?L) = dom ?L" by auto
    then have "fst ` set (p # ops) - dom ?L = fst ` set ops - insert key (dom ?L)"
      by (auto simp: p)
    with Some k show ?thesis
      by (simp add: m'(5) m1(5) L1)
  qed
  from a m'(2) b c d show ?case by blast
qed

lemma pm_size_EMPTY_PMAP: "pm_size EMPTY_PMAP = 0"
  by (simp add: EMPTY_PMAP_buckets)

text \<open>
  C3. Start from the empty map, which has 8 buckets, and set the pairs of a list with
  distinct keys one by one. Whatever the hash function, no call fails, and after the first
  \<open>n\<close> insertions the map holds \<open>n\<close> keys, reading any of the keys inserted so far gives the
  value set for it, and reading any other key raises KeyError. The number of buckets has
  grown from 8 by doubling.
\<close>

theorem insert_distinct_keys:
  assumes "distinct (map fst kvs)" and "n \<le> length kvs"
  shows "len (buckets (EMPTY_PMAP :: ('k, 'v) pmap)) = 8 \<and>
         (\<exists>m. set_all hash (EMPTY_PMAP :: ('k, 'v) pmap) (take n kvs) = Inr m \<and>
            len_pmap m = n \<and>
            (\<forall>i<n. getitem_pmap hash m (fst (kvs ! i)) = Inr (snd (kvs ! i))) \<and>
            (\<forall>key. key \<notin> fst ` set (take n kvs) \<longrightarrow> getitem_pmap hash m key = Inl KeyError) \<and>
            (\<exists>j. len (buckets m) = 8 * 2 ^ j))"
proof -
  let ?ops = "take n kvs"
  from assms(1) have dist: "distinct (map fst ?ops)"
    by (simp add: distinct_take take_map [symmetric])
  from set_all_ok [OF EMPTY_PMAP_inv, of hash ?ops] obtain m j where
    m: "set_all hash (EMPTY_PMAP :: ('k, 'v) pmap) ?ops = Inr m" "pmap_inv hash m"
      "lookup_pmap hash m = lookup_pmap hash (EMPTY_PMAP :: ('k, 'v) pmap) ++ map_of (rev ?ops)"
      "len (buckets m) = len (buckets (EMPTY_PMAP :: ('k, 'v) pmap)) * 2 ^ j"
      "pm_size m = pm_size (EMPTY_PMAP :: ('k, 'v) pmap) +
         card (fst ` set ?ops - dom (lookup_pmap hash (EMPTY_PMAP :: ('k, 'v) pmap)))"
    by blast
  have empty: "lookup_pmap hash (EMPTY_PMAP :: ('k, 'v) pmap) = Map.empty"
    by (simp add: fun_eq_iff lookup_EMPTY_PMAP)
  from dist have "distinct (map fst (rev ?ops))"
    by (simp only: rev_map [symmetric] distinct_rev)
  from map_of_inject_set [OF this dist] have "map_of (rev ?ops) = map_of ?ops"
    by simp
  then have L: "lookup_pmap hash m = map_of ?ops"
    by (simp add: m(3) empty)
  have "card (fst ` set ?ops) = length ?ops"
    using distinct_card [OF dist] by simp
  with assms(2) have size: "len_pmap m = n"
    by (simp add: len_pmap_def m(5) pm_size_EMPTY_PMAP empty)
  have get: "getitem_pmap hash m (fst (kvs ! i)) = Inr (snd (kvs ! i))" if "i < n" for i
  proof -
    from that assms(2) have "kvs ! i \<in> set ?ops"
      by (metis in_set_conv_nth length_take min.absorb2 nth_take)
    then have "(fst (kvs ! i), snd (kvs ! i)) \<in> set ?ops" by simp
    with dist have "map_of ?ops (fst (kvs ! i)) = Some (snd (kvs ! i))"
      by (rule map_of_is_SomeI)
    then show ?thesis
      by (simp add: getitem_pmap_ok [OF m(2)] L)
  qed
  have miss: "getitem_pmap hash m key = Inl KeyError" if "key \<notin> fst ` set ?ops" for key
  proof -
    from that have "map_of ?ops key = None"
      by (simp add: map_of_eq_None_iff)
    then show ?thesis
      by (simp add: getitem_pmap_ok [OF m(2)] L)
  qed
  from m(4) have "len (buckets m) = 8 * 2 ^ j"
    by (simp add: len_EMPTY_PMAP)
  with m(1) size get miss show ?thesis
    by (auto simp: len_EMPTY_PMAP)
qed


definition thirteen :: "(int \<times> nat) list" where
  "thirteen = [(0, 0), (1, 1), (2, 2), (3, 3), (4, 4), (5, 5), (6, 6), (7, 7), (8, 8), (9, 9),
     (10, 10), (11, 11), (12, 12)]"

theorem insert_distinct_keys_witness:
  "distinct (map fst thirteen) \<and> (13 :: nat) \<le> length thirteen \<and>
   (\<exists>m. set_all id EMPTY_PMAP (take 13 thirteen) = Inr m \<and> len_pmap m = 13 \<and>
      getitem_pmap id m 0 = Inr 0 \<and> getitem_pmap id m 12 = Inr 12 \<and>
      getitem_pmap id m 13 = Inl KeyError)"
proof -
  have d: "distinct (map fst thirteen)" "(13 :: nat) \<le> length thirteen"
    by (simp_all add: thirteen_def)
  from insert_distinct_keys [OF d, of id] obtain m where
    m: "set_all id EMPTY_PMAP (take 13 thirteen) = Inr m" "len_pmap m = 13"
      "\<And>i. i < 13 \<Longrightarrow> getitem_pmap id m (fst (thirteen ! i)) = Inr (snd (thirteen ! i))"
      "\<And>key. key \<notin> fst ` set (take 13 thirteen) \<Longrightarrow> getitem_pmap id m key = Inl KeyError"
    by blast
  from m(3) [of 0] m(3) [of 12] have "getitem_pmap id m 0 = Inr 0" "getitem_pmap id m 12 = Inr 12"
    by (simp_all add: thirteen_def)
  moreover from m(4) [of 13] have "getitem_pmap id m 13 = Inl KeyError"
    by (simp add: thirteen_def)
  ultimately show ?thesis
    using d m(1,2) by blast
qed

text \<open>With the hash of an integer the integer itself, the thirteenth key doubles the buckets.\<close>

lemma thirteen_keys_reallocate:
  "map_sum id (len \<circ> buckets) (set_all id EMPTY_PMAP (take 12 thirteen)) = Inr 8"
  "map_sum id (len \<circ> buckets) (set_all id EMPTY_PMAP thirteen) = Inr 16"
  by code_simp+


subsection \<open>The number of buckets\<close>


text \<open>
  An evolver session on the map \<open>m\<close>: the evolver \<open>m.evolver()\<close>, and any evolver got from it
  by \<open>e[key] = val\<close> and \<open>del e[key]\<close>.
\<close>

inductive session :: "('k \<Rightarrow> int) \<Rightarrow> ('k, 'v) pmap \<Rightarrow> ('k, 'v) pmap_evolver \<Rightarrow> bool"
  for hash :: "'k \<Rightarrow> int" and m :: "('k, 'v) pmap" where
  start: "session hash m (evolver_pmap m)"
| setitem: "session hash m e \<Longrightarrow> setitem_pmap_evolver hash e key val = Inr e' \<Longrightarrow> session hash m e'"
| delitem: "session hash m e \<Longrightarrow> delitem_pmap_evolver hash e key = Inr e' \<Longrightarrow> session hash m e'"












subsection \<open>A reallocation followed by no write\<close>

text \<open>
  C1, as the code has it. On the empty map, with the hash of an integer the integer itself,
  set the keys 0 to 11 to themselves and then key 0 to the value it has. By direct calls of
  \<open>set\<close> the result holds the twelve pairs. Through one evolver the thirteenth \<open>e[0] = 0\<close>
  finds 8 buckets for 12 keys and reallocates, which replaces the evolver of the buckets by
  a fresh one; the value is the one stored, so nothing is written, the fresh evolver is not
  dirty, and \<open>persistent()\<close> returns the original, empty, map.
\<close>

theorem evolver_loses_writes:
  "map_sum id iteritems (set_all id EMPTY_PMAP (take 12 thirteen @ [(0, 0)])) =
     Inr [(8, 8), (0, 0), (9, 9), (1, 1), (10, 10), (2, 2), (11, 11), (3, 3), (4, 4), (5, 5),
          (6, 6), (7, 7)] \<and>
   map_sum id (iteritems \<circ> persistent_pmap_evolver)
     (setitem_all id (evolver_pmap EMPTY_PMAP) (take 12 thirteen @ [(0, 0)])) = Inr [] \<and>
   map_sum id (iteritems \<circ> persistent_pmap_evolver)
     (setitem_all id (evolver_pmap EMPTY_PMAP) (take 12 thirteen)) =
     Inr [(8, 8), (0, 0), (9, 9), (1, 1), (10, 10), (2, 2), (11, 11), (3, 3), (4, 4), (5, 5),
          (6, 6), (7, 7)]"
  by code_simp

text \<open>
  Setting a key to the value it has returns the map itself, and an evolver nothing was
  written to returns its original map.
\<close>

lemma set_pmap_identical:
  assumes "pmap_inv hash m" and "lookup_pmap hash m key = Some val"
  shows "set_pmap hash m key val = Inr m"
  using set_pmap_ok [OF assms(1), of key val] assms(2) by auto

lemma persistent_without_write: "persistent_pmap_evolver (evolver_pmap m) = m"
  by (simp add: persistent_pmap_evolver_def is_dirty_pmap_evolver_def evolver_pmap_def
      evolver_def is_dirty_reset)

text \<open>
  C5, as the code has it. After the twelve writes \<open>e[i] = i\<close> and \<open>e[0] = 0\<close> on the evolver
  of the empty map, the evolver holds 12 keys in 16 buckets and reads 5 at key 5, yet it is
  not dirty and \<open>persistent()\<close> is the original map, of length 0: writes occurred and no new
  map is built.
\<close>

theorem persistent_after_reallocation:
  "map_sum id (\<lambda>e. (me_size e, len_evolver (buckets_evolver e), getitem_pmap_evolver id e 5,
        is_dirty_pmap_evolver e, persistent_pmap_evolver e = original_pmap e,
        len_pmap (persistent_pmap_evolver e)))
     (setitem_all id (evolver_pmap (EMPTY_PMAP :: (int, nat) pmap)) (take 12 thirteen @ [(0, 0)])) =
   Inr (12, 16, Inr 5, False, True, 0)"
  by code_simp

section \<open>PRecord\<close>

text \<open>
  A field of a record class, as \<open>field(...)\<close> builds it: the set of allowed types (empty when
  none is given), the invariant, which returns a pair of a boolean and an error code, the
  initial value if there is one, the mandatory flag and the factory. A factory returns a
  value or raises \<open>InvariantException\<close> (that of a nested record, by \<open>create\<close>). Whether a value
  is an instance of a type is the host's \<open>isinstance\<close>, a parameter of the model.
\<close>

datatype ('v, 'c) factory_result =
  Returns 'v
| Raises_InvariantException "'c list" "string list"

record ('v, 't, 'c) precord_field =
  field_type :: "'t list"
  field_invariant :: "'v \<Rightarrow> bool \<times> 'c"
  field_initial :: "'v option"
  field_mandatory :: bool
  field_factory :: "'v \<Rightarrow> ('v, 'c) factory_result"

text \<open>
  A record class, as \<open>_PRecordMeta\<close> leaves it: its name, the fields by name and the global
  invariants, which take the whole record. \<open>_precord_mandatory_fields\<close> and
  \<open>_precord_initial_values\<close> are derived from the fields.
\<close>

record ('v, 't, 'c) precord_class =
  cls_name :: string
  precord_fields :: "(string \<times> ('v, 't, 'c) precord_field) list"
  precord_invariants :: "((string, 'v) pmap \<Rightarrow> bool \<times> 'c) list"

definition precord_mandatory_fields :: "('v, 't, 'c) precord_class \<Rightarrow> string list" where
  "precord_mandatory_fields cls =
     map fst (filter (\<lambda>(name, field). field_mandatory field) (precord_fields cls))"

definition precord_initial_values :: "('v, 't, 'c) precord_class \<Rightarrow> (string \<times> 'v) list" where
  "precord_initial_values cls =
     concat (map (\<lambda>(k, field). case field_initial field of None \<Rightarrow> [] | Some v \<Rightarrow> [(k, v)])
       (precord_fields cls))"

text \<open>
  What a record operation raises: \<open>InvariantException\<close> with its \<open>error_codes\<close> and
  \<open>missing_fields\<close>, or another exception.
\<close>

datatype 'c precord_error =
  InvariantException (error_codes: "'c list") (missing_fields: "string list")
| Raised error

text \<open>
  \<open>_PRecordEvolver\<close>: the evolver of the map with the two lists it collects failures in.
  \<open>__setitem__\<close> raises AttributeError for a name that is not a field and TypeError for a
  value of a wrong type at once; a failing field invariant adds its code to the list and
  the value is stored all the same; an \<open>InvariantException\<close> of the factory adds its codes
  and missing fields and the value is not stored.
\<close>

record ('v, 'c) precord_evolver =
  map_evolver :: "(string, 'v) pmap_evolver"
  invariant_error_codes :: "'c list"
  evolver_missing_fields :: "string list"

definition PRecordEvolver :: "(string, 'v) pmap \<Rightarrow> ('v, 'c) precord_evolver" where
  "PRecordEvolver original =
     \<lparr>map_evolver = evolver_pmap original, invariant_error_codes = [],
      evolver_missing_fields = []\<rparr>"

definition setitem_precord_evolver ::
  "('v \<Rightarrow> 't \<Rightarrow> bool) \<Rightarrow> (string \<Rightarrow> int) \<Rightarrow> ('v, 't, 'c) precord_class \<Rightarrow>
   ('v, 'c) precord_evolver \<Rightarrow> string \<Rightarrow> 'v \<Rightarrow> 'c precord_error + ('v, 'c) precord_evolver" where
  "setitem_precord_evolver isinstance hash cls self key original_value =
     (case map_of (precord_fields cls) key of
        None \<Rightarrow> Inl (Raised AttributeError)
      | Some field \<Rightarrow>
          (case field_factory field original_value of
             Raises_InvariantException codes missing \<Rightarrow>
               Inr (self\<lparr>invariant_error_codes := invariant_error_codes self @ codes,
                          evolver_missing_fields := evolver_missing_fields self @ missing\<rparr>)
           | Returns val \<Rightarrow>
               if field_type field \<noteq> [] \<and> \<not> (\<exists>t\<in>set (field_type field). isinstance val t)
               then Inl (Raised TypeError)
               else
                 (case setitem_pmap_evolver hash (map_evolver self) key val of
                    Inl e \<Rightarrow> Inl (Raised e)
                  | Inr m \<Rightarrow>
                      Inr (self\<lparr>map_evolver := m,
                                 invariant_error_codes :=
                                   (if fst (field_invariant field val) then invariant_error_codes self
                                    else invariant_error_codes self @ [snd (field_invariant field val)])\<rparr>))))"

text \<open>
  \<open>_PRecordEvolver.persistent\<close>. The names of the mandatory fields that the record lacks
  are added to the missing fields, prefixed with the name of the class. With a failed field
  invariant or a missing field the exception is raised there, before any global invariant
  is called; otherwise the codes of all the global invariants that fail are raised
  together.
\<close>

definition persistent_precord_evolver ::
  "('v, 't, 'c) precord_class \<Rightarrow> ('v, 'c) precord_evolver \<Rightarrow> 'c precord_error + (string, 'v) pmap" where
  "persistent_precord_evolver cls self =
     (let result = persistent_pmap_evolver (map_evolver self);
          missing = evolver_missing_fields self @
            map (\<lambda>f. cls_name cls @ ''.'' @ f)
              (filter (\<lambda>f. f \<notin> set (keys result)) (precord_mandatory_fields cls))
      in if invariant_error_codes self \<noteq> [] \<or> missing \<noteq> []
         then Inl (InvariantException (invariant_error_codes self) missing)
         else
           (let codes = map snd (filter (\<lambda>r. \<not> fst r)
                          (map (\<lambda>invariant. invariant result) (precord_invariants cls)))
            in if codes \<noteq> [] then Inl (InvariantException codes []) else Inr result))"

text \<open>
  The loop \<open>e[k] = v\<close> over the items of a dictionary, \<open>PRecord.__new__\<close> on keyword
  arguments, and \<open>PRecord.set\<close>, which is \<open>update\<close> on its keyword arguments: the same loop
  on the evolver of the record.
\<close>

fun setitem_all_precord ::
  "('v \<Rightarrow> 't \<Rightarrow> bool) \<Rightarrow> (string \<Rightarrow> int) \<Rightarrow> ('v, 't, 'c) precord_class \<Rightarrow>
   ('v, 'c) precord_evolver \<Rightarrow> (string \<times> 'v) list \<Rightarrow> 'c precord_error + ('v, 'c) precord_evolver" where
  "setitem_all_precord isinstance hash cls e [] = Inr e"
| "setitem_all_precord isinstance hash cls e ((k, v) # kvs) =
     (case setitem_precord_evolver isinstance hash cls e k v of
        Inl err \<Rightarrow> Inl err
      | Inr e' \<Rightarrow> setitem_all_precord isinstance hash cls e' kvs)"

definition PRecord ::
  "('v \<Rightarrow> 't \<Rightarrow> bool) \<Rightarrow> (string \<Rightarrow> int) \<Rightarrow> ('v, 't, 'c) precord_class \<Rightarrow>
   (string \<times> 'v) list \<Rightarrow> 'c precord_error + (string, 'v) pmap" where
  "PRecord isinstance hash cls kwargs =
     (let initial_values =
            (if precord_initial_values cls \<noteq> [] then dict (precord_initial_values cls @ kwargs)
             else kwargs)
      in case setitem_all_precord isinstance hash cls (PRecordEvolver EMPTY_PMAP) initial_values of
           Inl err \<Rightarrow> Inl err
         | Inr e \<Rightarrow> persistent_precord_evolver cls e)"

definition set_precord ::
  "('v \<Rightarrow> 't \<Rightarrow> bool) \<Rightarrow> (string \<Rightarrow> int) \<Rightarrow> ('v, 't, 'c) precord_class \<Rightarrow>
   (string, 'v) pmap \<Rightarrow> (string \<times> 'v) list \<Rightarrow> 'c precord_error + (string, 'v) pmap" where
  "set_precord isinstance hash cls self kwargs =
     (case setitem_all_precord isinstance hash cls (PRecordEvolver self) kwargs of
        Inl err \<Rightarrow> Inl err
      | Inr e \<Rightarrow> persistent_precord_evolver cls e)"


subsection \<open>What a failed validation reports\<close>

text \<open>
  The codes and the missing fields that \<open>e[key] = value\<close> adds to the lists of the evolver.
\<close>

definition field_codes :: "('v, 't, 'c) precord_class \<Rightarrow> string \<times> 'v \<Rightarrow> 'c list" where
  "field_codes cls kv =
     (case map_of (precord_fields cls) (fst kv) of
        None \<Rightarrow> []
      | Some field \<Rightarrow>
          (case field_factory field (snd kv) of
             Raises_InvariantException codes missing \<Rightarrow> codes
           | Returns val \<Rightarrow>
               if fst (field_invariant field val) then [] else [snd (field_invariant field val)]))"

definition factory_missing :: "('v, 't, 'c) precord_class \<Rightarrow> string \<times> 'v \<Rightarrow> string list" where
  "factory_missing cls kv =
     (case map_of (precord_fields cls) (fst kv) of
        None \<Rightarrow> []
      | Some field \<Rightarrow>
          (case field_factory field (snd kv) of
             Raises_InvariantException codes missing \<Rightarrow> missing
           | Returns val \<Rightarrow> []))"

lemma setitem_precord_evolver_lists:
  assumes "setitem_precord_evolver isinstance hash cls e k v = Inr e'"
  shows "invariant_error_codes e' = invariant_error_codes e @ field_codes cls (k, v)"
    and "evolver_missing_fields e' = evolver_missing_fields e @ factory_missing cls (k, v)"
  using assms
  by (auto simp: setitem_precord_evolver_def field_codes_def factory_missing_def
      split: option.splits factory_result.splits if_splits sum.splits)

lemma setitem_all_precord_lists:
  assumes "setitem_all_precord isinstance hash cls e kvs = Inr e'"
  shows "invariant_error_codes e' = invariant_error_codes e @ concat (map (field_codes cls) kvs) \<and>
         evolver_missing_fields e' = evolver_missing_fields e @ concat (map (factory_missing cls) kvs)"
  using assms
proof (induction kvs arbitrary: e)
  case Nil
  then show ?case by simp
next
  case (Cons kv kvs)
  obtain k v where kv: "kv = (k, v)" by (cases kv)
  from Cons.prems obtain e1 where e1: "setitem_precord_evolver isinstance hash cls e k v = Inr e1"
    and r: "setitem_all_precord isinstance hash cls e1 kvs = Inr e'"
    by (auto simp: kv split: sum.splits)
  from Cons.IH [OF r] setitem_precord_evolver_lists [OF e1] show ?case
    by (simp add: kv)
qed

text \<open>
  A class with one field \<open>x\<close>, whose invariant wants a positive value and has the code
  \<open>'neg'\<close>, and one global invariant, which wants \<open>x\<close> to be at least 10 and has the code
  \<open>'small'\<close>. No type is declared. The hash of a name is its length.
\<close>

definition example_hash :: "string \<Rightarrow> int" where
  "example_hash k = int (length k)"

definition example_field :: "(int, unit, string) precord_field" where
  "example_field =
     \<lparr>field_type = [], field_invariant = (\<lambda>v. (0 < v, ''neg'')), field_initial = None,
      field_mandatory = False, field_factory = Returns\<rparr>"

definition example_invariant :: "(string, int) pmap \<Rightarrow> bool \<times> string" where
  "example_invariant r =
     (case getitem_pmap example_hash r ''x'' of Inl e \<Rightarrow> (False, ''small'') | Inr v \<Rightarrow> (10 \<le> v, ''small''))"

definition example_class :: "(int, unit, string) precord_class" where
  "example_class =
     \<lparr>cls_name = ''R'', precord_fields = [(''x'', example_field)],
      precord_invariants = [example_invariant]\<rparr>"

definition no_types :: "int \<Rightarrow> unit \<Rightarrow> bool" where
  "no_types v t = True"

text \<open>
  C8, as stated, fails. \<open>R(x=-1)\<close> breaks the invariant of the field and the global
  invariant: the record built from the evolver has \<open>x = -1\<close>, on which the global invariant
  gives \<open>(False, 'small')\<close>. The exception raised carries the code \<open>'neg'\<close> alone. \<open>R(x=5)\<close>
  raises the exception of the global invariant.
\<close>

theorem global_invariant_not_reported:
  "PRecord no_types example_hash example_class [(''x'', - 1)] = Inl (InvariantException [''neg''] []) \<and>
   map_sum id (\<lambda>e. example_invariant (persistent_pmap_evolver (map_evolver e)))
     (setitem_all_precord no_types example_hash example_class (PRecordEvolver EMPTY_PMAP) [(''x'', - 1)]) =
     Inr (False, ''small'') \<and>
   PRecord no_types example_hash example_class [(''x'', 5)] = Inl (InvariantException [''small''] [])"
  by code_simp

text \<open>
  C8, amended. Take a construction or a \<open>set\<close> in which no \<open>e[key] = value\<close> raises TypeError
  or AttributeError. If a field invariant failed, a factory raised \<open>InvariantException\<close> or a
  mandatory field is missing from the record, the exception carries the codes of all the
  field invariants that failed, with those of the factories, and all the missing fields,
  and no global invariant is called. Otherwise, if a global invariant fails, the exception
  carries the codes of all the global invariants that fail, and no field. Construction is
  the same operation on the empty map and the initial values.
\<close>

theorem precord_validation:
  assumes "setitem_all_precord isinstance hash cls (PRecordEvolver self) kwargs = Inr e"
  shows "set_precord isinstance hash cls self kwargs =
     (let result = persistent_pmap_evolver (map_evolver e);
          codes = concat (map (field_codes cls) kwargs);
          missing = concat (map (factory_missing cls) kwargs) @
            map (\<lambda>f. cls_name cls @ ''.'' @ f)
              (filter (\<lambda>f. f \<notin> set (keys result)) (precord_mandatory_fields cls));
          global_codes = map snd (filter (\<lambda>r. \<not> fst r)
            (map (\<lambda>invariant. invariant result) (precord_invariants cls)))
      in if codes \<noteq> [] \<or> missing \<noteq> [] then Inl (InvariantException codes missing)
         else if global_codes \<noteq> [] then Inl (InvariantException global_codes [])
         else Inr result) \<and>
     PRecord isinstance hash cls kwargs0 =
       set_precord isinstance hash cls EMPTY_PMAP
         (if precord_initial_values cls \<noteq> [] then dict (precord_initial_values cls @ kwargs0)
          else kwargs0)"
proof -
  from setitem_all_precord_lists [OF assms]
  have l: "invariant_error_codes e = concat (map (field_codes cls) kwargs)"
    "evolver_missing_fields e = concat (map (factory_missing cls) kwargs)"
    by (simp_all add: PRecordEvolver_def)
  show ?thesis
    by (simp add: set_precord_def PRecord_def assms persistent_precord_evolver_def l Let_def)
qed


text \<open>
  A class \<open>S\<close> with the fields \<open>x\<close>, which must be positive, \<open>y\<close>, which must be even, and the
  mandatory field \<open>z\<close>, and with the global invariant above. \<open>S(x=-1, y=3)\<close> fails with both
  codes and the missing field.
\<close>

definition even_field :: "(int, unit, string) precord_field" where
  "even_field =
     \<lparr>field_type = [], field_invariant = (\<lambda>v. (v mod 2 = 0, ''odd'')), field_initial = None,
      field_mandatory = False, field_factory = Returns\<rparr>"

definition mandatory_field :: "(int, unit, string) precord_field" where
  "mandatory_field =
     \<lparr>field_type = [], field_invariant = (\<lambda>v. (True, ''ok'')), field_initial = None,
      field_mandatory = True, field_factory = Returns\<rparr>"

definition three_fields :: "(int, unit, string) precord_class" where
  "three_fields =
     \<lparr>cls_name = ''S'',
      precord_fields = [(''x'', example_field), (''y'', even_field), (''z'', mandatory_field)],
      precord_invariants = [example_invariant]\<rparr>"

theorem precord_validation_witness:
  "setitem_all_precord no_types example_hash three_fields (PRecordEvolver EMPTY_PMAP)
     [(''x'', - 1), (''y'', 3)] =
   Inr (projr (setitem_all_precord no_types example_hash three_fields (PRecordEvolver EMPTY_PMAP)
     [(''x'', - 1), (''y'', 3)])) \<and>
   set_precord no_types example_hash three_fields EMPTY_PMAP [(''x'', - 1), (''y'', 3)] =
     Inl (InvariantException [''neg'', ''odd''] [''S.z'']) \<and>
   PRecord no_types example_hash three_fields [(''x'', - 1), (''y'', 3)] =
     Inl (InvariantException [''neg'', ''odd''] [''S.z''])"
proof -
  let ?r = "setitem_all_precord no_types example_hash three_fields (PRecordEvolver EMPTY_PMAP)
     [(''x'', - 1), (''y'', 3)]"
  have "\<not> isl ?r" by code_simp
  then have ok: "?r = Inr (projr ?r)" by simp
  have init: "precord_initial_values three_fields = []"
    by code_simp
  have rhs: "(let result = persistent_pmap_evolver (map_evolver (projr ?r));
          codes = concat (map (field_codes three_fields) [(''x'', - 1), (''y'', 3)]);
          missing = concat (map (factory_missing three_fields) [(''x'', - 1), (''y'', 3)]) @
            map (\<lambda>f. cls_name three_fields @ ''.'' @ f)
              (filter (\<lambda>f. f \<notin> set (keys result)) (precord_mandatory_fields three_fields));
          global_codes = map snd (filter (\<lambda>r. \<not> fst r)
            (map (\<lambda>invariant. invariant result) (precord_invariants three_fields)))
      in if codes \<noteq> [] \<or> missing \<noteq> [] then Inl (InvariantException codes missing)
         else if global_codes \<noteq> [] then Inl (InvariantException global_codes [])
         else Inr result) = Inl (InvariantException [''neg'', ''odd''] [''S.z''])"
    by code_simp
  from precord_validation [OF ok, of "[(''x'', - 1), (''y'', 3)]"] ok show ?thesis
    by (simp only: rhs init simp_thms if_False)
qed

end
